theory Spec2Isabelle
  imports Complex_Main "HOL-Library.Multiset"
begin


section \<open>EcoPack: the packing, metrics and consolidation engine of \<open>App.jsx\<close>\<close>

text \<open>
  The engine is the four top-level functions \<open>packOptimal\<close>, \<open>calculateMetrics\<close>,
  \<open>tryAddItemsToExistingBoxes\<close> and \<open>getBulkOrderSuggestions\<close> of \<open>src/App.jsx\<close>,
  with the helpers \<open>getItemVolume\<close> and \<open>doesItemFit\<close> and the constant
  \<open>AMAZON_BOX_SIZES\<close>.

  Numbers. Every quantity of the source is a JavaScript number. The model uses exact
  rational arithmetic (\<^typ>\<open>rat\<close>): \<open>+\<close>, \<open>-\<close>, \<open>*\<close>, \<open>/\<close> and the comparisons are the
  mathematical ones, and the rounding of IEEE-754 doubles is not part of the model.
  Counts of units (\<open>quantity\<close>, \<open>quantityToTry\<close>, \<open>quantityAdded\<close>) are natural numbers.
\<close>

subsection \<open>Data model\<close>

text \<open>
  An item of the product list, as the cart stores it: \<open>{ id, name, length, width, height,
  weight, imageUrl, quantity }\<close>. The field \<open>imageUrl\<close> is never read by the engine and
  is left out. The field names carry a prefix where the source's name is a constant of HOL
  (\<open>id\<close>, \<open>length\<close>) or is shared with the box type.
\<close>

record item =
  item_id :: string
  item_name :: string
  item_length :: rat
  item_width :: rat
  item_height :: rat
  weight :: rat
  quantity :: nat

text \<open>An entry of the box catalog (\<open>AMAZON_BOX_SIZES\<close>).\<close>

record box =
  name :: string
  box_length :: rat
  box_width :: rat
  box_height :: rat
  volume :: rat
  maxWeight :: rat
  baseCO2 :: rat
  perKgCO2 :: rat

text \<open>
  A packed box is the object \<open>{ ...boxType, items, filledVolume, totalWeight }\<close>: every
  field of the box type, and three more.
\<close>

record packedBox = box +
  items :: "item list"
  filledVolume :: rat
  totalWeight :: rat

definition AMAZON_BOX_SIZES :: "box list" where
  "AMAZON_BOX_SIZES =
    [\<lparr>name = ''Small Box (S3)'', box_length = 25, box_width = 20, box_height = 12,
      volume = 6000, maxWeight = 5, baseCO2 = 15 / 100, perKgCO2 = 6 / 100\<rparr>,
     \<lparr>name = ''Medium Box (M3)'', box_length = 35, box_width = 25, box_height = 15,
      volume = 13125, maxWeight = 10, baseCO2 = 20 / 100, perKgCO2 = 55 / 1000\<rparr>,
     \<lparr>name = ''Large Box (L4)'', box_length = 45, box_width = 35, box_height = 20,
      volume = 31500, maxWeight = 15, baseCO2 = 25 / 100, perKgCO2 = 5 / 100\<rparr>,
     \<lparr>name = ''X-Large Box (X1)'', box_length = 60, box_width = 40, box_height = 30,
      volume = 72000, maxWeight = 22, baseCO2 = 30 / 100, perKgCO2 = 45 / 1000\<rparr>]"

subsection \<open>The fit predicate\<close>

definition getItemVolume :: "item \<Rightarrow> rat" where
  "getItemVolume it = item_length it * item_width it * item_height it"

text \<open>
  \<open>doesItemFit\<close> is called with a catalog entry and with a packed box; it reads only the
  fields of the box type, so its second argument is any extension of \<^typ>\<open>box\<close>.
\<close>

definition doesItemFit :: "item \<Rightarrow> 'a box_scheme \<Rightarrow> rat \<Rightarrow> rat \<Rightarrow> bool" where
  "doesItemFit it b currentFilledVolume currentTotalWeight =
    (item_length it \<le> box_length b \<and>
     item_width it \<le> box_width b \<and>
     item_height it \<le> box_height b \<and>
     currentFilledVolume + getItemVolume it \<le> volume b \<and>
     currentTotalWeight + weight it \<le> maxWeight b)"

subsection \<open>The packing engine\<close>

text \<open>\<open>{ ...boxType, items: its, filledVolume: fv, totalWeight: tw }\<close>\<close>

definition openBox :: "box \<Rightarrow> item list \<Rightarrow> rat \<Rightarrow> rat \<Rightarrow> packedBox" where
  "openBox b its fv tw =
    \<lparr>name = name b, box_length = box_length b, box_width = box_width b,
     box_height = box_height b, volume = volume b, maxWeight = maxWeight b,
     baseCO2 = baseCO2 b, perKgCO2 = perKgCO2 b,
     items = its, filledVolume = fv, totalWeight = tw\<rparr>"

text \<open>The catalog entry a packed box was opened from: its box-type fields.\<close>

definition boxTypeOf :: "packedBox \<Rightarrow> box" where
  "boxTypeOf pb =
    \<lparr>name = name pb, box_length = box_length pb, box_width = box_width pb,
     box_height = box_height pb, volume = volume pb, maxWeight = maxWeight pb,
     baseCO2 = baseCO2 pb, perKgCO2 = perKgCO2 pb\<rparr>"

text \<open>
  The three statements that place an item:
  \<open>b.items.push(it); b.filledVolume += getItemVolume(it); b.totalWeight += it.weight\<close>.
\<close>

definition addItem :: "item \<Rightarrow> packedBox \<Rightarrow> packedBox" where
  "addItem it pb =
    pb\<lparr>items := items pb @ [it],
       filledVolume := filledVolume pb + getItemVolume it,
       totalWeight := totalWeight pb + weight it\<rparr>"

text \<open>
  The two sorts of \<open>packOptimal\<close>. \<open>Array.prototype.sort\<close> is stable, and so is
  \<^const>\<open>sort_key\<close>; the comparator \<open>getItemVolume(b) - getItemVolume(a)\<close> orders by
  descending volume, that is by ascending negated volume.
\<close>

definition sortItemsDesc :: "item list \<Rightarrow> item list" where
  "sortItemsDesc its = sort_key (\<lambda>it. - getItemVolume it) its"

definition sortBoxesAsc :: "box list \<Rightarrow> box list" where
  "sortBoxesAsc bs = sort_key volume bs"

text \<open>
  Phase 1, inner loop: the running totals after all items, or \<open>None\<close> at the first item
  that does not fit (\<open>allItemsFitInOneBox = false; break\<close>).
\<close>

fun allItemsFit :: "item list \<Rightarrow> box \<Rightarrow> rat \<Rightarrow> rat \<Rightarrow> (rat \<times> rat) option" where
  "allItemsFit [] boxType tempFilledVolume tempTotalWeight =
     Some (tempFilledVolume, tempTotalWeight)"
| "allItemsFit (it # rest) boxType tempFilledVolume tempTotalWeight =
     (if doesItemFit it boxType tempFilledVolume tempTotalWeight
      then allItemsFit rest boxType (tempFilledVolume + getItemVolume it)
             (tempTotalWeight + weight it)
      else None)"

text \<open>Phase 1, outer loop over the box types, smallest first.\<close>

fun singleBox :: "box list \<Rightarrow> item list \<Rightarrow> packedBox option" where
  "singleBox [] sortedItems = None"
| "singleBox (boxType # rest) sortedItems =
     (case allItemsFit sortedItems boxType 0 0 of
        Some (fv, tw) \<Rightarrow> Some (openBox boxType sortedItems fv tw)
      | None \<Rightarrow> singleBox rest sortedItems)"

text \<open>
  Phase 2, the scan of the opened boxes for the best fit. The state of the loop is
  \<open>(bestFitBoxIndex, highestPotentialFill)\<close>, \<open>None\<close> standing for the index \<open>-1\<close>.
  \<open>potentialNewFill\<close> is computed only for a box that passed \<open>doesItemFit\<close>, so its
  numerator is at most \<open>box.volume\<close>; where \<open>box.volume\<close> is zero JavaScript's quotient
  is \<open>NaN\<close> or \<open>-Infinity\<close> and the comparison with \<open>highestPotentialFill\<close> is false,
  which the guard \<open>volume b \<noteq> 0\<close> writes out (in HOL, \<open>x / 0 = 0\<close>).
\<close>

definition potentialNewFill :: "item \<Rightarrow> packedBox \<Rightarrow> rat" where
  "potentialNewFill it b = ((filledVolume b + getItemVolume it) / volume b) * 100"

fun scanBoxes :: "item \<Rightarrow> packedBox list \<Rightarrow> nat \<Rightarrow> nat option \<times> rat \<Rightarrow> nat option \<times> rat" where
  "scanBoxes it [] i st = st"
| "scanBoxes it (b # bs) i (best, highestPotentialFill) =
     (if doesItemFit it b (filledVolume b) (totalWeight b) \<and> volume b \<noteq> 0
         \<and> potentialNewFill it b > highestPotentialFill
      then scanBoxes it bs (Suc i) (Some i, potentialNewFill it b)
      else scanBoxes it bs (Suc i) (best, highestPotentialFill))"

definition bestFitBoxIndex :: "item \<Rightarrow> packedBox list \<Rightarrow> nat option" where
  "bestFitBoxIndex it bs = fst (scanBoxes it bs 0 (None, - 1))"

text \<open>
  Phase 2, the fill-further loop: every pending item that fits the target box goes into
  it, the others stay pending, in order.
\<close>

fun fillBox :: "packedBox \<Rightarrow> item list \<Rightarrow> packedBox \<times> item list" where
  "fillBox targetBox [] = (targetBox, [])"
| "fillBox targetBox (otherItem # rest) =
     (if doesItemFit otherItem targetBox (filledVolume targetBox) (totalWeight targetBox)
      then fillBox (addItem otherItem targetBox) rest
      else (case fillBox targetBox rest of
              (tb, unpacked) \<Rightarrow> (tb, otherItem # unpacked)))"

text \<open>The test of \<open>sortedBoxesAsc.find(...)\<close> when a new box is opened.\<close>

definition newBoxFits :: "item \<Rightarrow> box \<Rightarrow> bool" where
  "newBoxFits currentItem b =
    (item_length currentItem \<le> box_length b \<and>
     item_width currentItem \<le> box_width b \<and>
     item_height currentItem \<le> box_height b \<and>
     weight currentItem \<le> maxWeight b)"

text \<open>The text of the \<open>console.warn\<close> for an item that no box type takes.\<close>

definition unpackableWarning :: "item \<Rightarrow> string" where
  "unpackableWarning it =
    ''Optimal Packing: Item '' @ [CHR 0x27] @ item_name it @ [CHR 0x27]
      @ '' cannot be packed into any available box.''"

lemma fillBox_length: "fillBox tb its = (tb', rest) \<Longrightarrow> length rest \<le> length its"
proof (induction its arbitrary: tb tb' rest)
  case Nil
  then show ?case by simp
next
  case (Cons it its)
  show ?case
  proof (cases "doesItemFit it tb (filledVolume tb) (totalWeight tb)")
    case True
    with Cons.prems have "fillBox (addItem it tb) its = (tb', rest)" by simp
    from Cons.IH [OF this] show ?thesis by simp
  next
    case False
    obtain tb2 rest2 where r: "fillBox tb its = (tb2, rest2)"
      by (cases "fillBox tb its")
    with False Cons.prems have "rest = it # rest2" by simp
    with Cons.IH [OF r] show ?thesis by simp
  qed
qed

text \<open>
  Phase 2, the \<open>while (unpackedItems.length > 0)\<close> loop. Its state is \<open>packedBoxes\<close>,
  \<open>unpackedItems\<close> and the lines written by \<open>console.warn\<close> so far.
\<close>

function packLoop :: "box list \<Rightarrow> packedBox list \<Rightarrow> item list \<Rightarrow> string list
    \<Rightarrow> packedBox list \<times> string list" where
  "packLoop sortedBoxesAsc packedBoxes [] warned = (packedBoxes, warned)"
| "packLoop sortedBoxesAsc packedBoxes (currentItem # unpackedItems) warned =
     (case bestFitBoxIndex currentItem packedBoxes of
        Some i \<Rightarrow>
          (case fillBox (addItem currentItem (packedBoxes ! i)) unpackedItems of
             (targetBox, stillUnpacked) \<Rightarrow>
               packLoop sortedBoxesAsc (packedBoxes[i := targetBox]) stillUnpacked warned)
      | None \<Rightarrow>
          (case find (newBoxFits currentItem) sortedBoxesAsc of
             Some newBoxType \<Rightarrow>
               (case fillBox (openBox newBoxType [currentItem] (getItemVolume currentItem)
                               (weight currentItem)) unpackedItems of
                  (newBox, stillUnpacked) \<Rightarrow>
                    packLoop sortedBoxesAsc (packedBoxes @ [newBox]) stillUnpacked warned)
           | None \<Rightarrow>
               packLoop sortedBoxesAsc packedBoxes unpackedItems
                 (warned @ [unpackableWarning currentItem])))"
  by pat_completeness auto
termination
  by (relation "measure (\<lambda>(sb, pbs, its, w). length its)")
     (auto dest: fillBox_length [OF sym])

text \<open>
  \<open>packOptimal\<close> with its console output: the packed boxes and the warnings written.
\<close>

definition packOptimalLog :: "item list \<Rightarrow> box list \<Rightarrow> packedBox list \<times> string list" where
  "packOptimalLog its boxTypes =
    (if its = [] then ([], [])
     else
       (case singleBox (sortBoxesAsc boxTypes) (sortItemsDesc its) of
          Some pb \<Rightarrow> ([pb], [])
        | None \<Rightarrow> packLoop (sortBoxesAsc boxTypes) [] (sortItemsDesc its) []))"

definition packOptimal :: "item list \<Rightarrow> box list \<Rightarrow> packedBox list" where
  "packOptimal its boxTypes = fst (packOptimalLog its boxTypes)"

subsection \<open>The metrics calculator\<close>

text \<open>
  The object \<open>calculateMetrics\<close> returns, without \<open>boxBreakdown\<close>: that field is a
  display string built from the box names, and nothing below reads it.
\<close>

record metrics =
  packedBoxes :: "packedBox list"
  packagingEfficiencyScore :: rat
  optimalCO2Impact :: rat
  co2SavedByConsolidation :: rat
  totalBoxes :: nat

text \<open>The test of \<open>AMAZON_BOX_SIZES.sort(...).find(...)\<close> in \<open>calculateMetrics\<close>.\<close>

definition suitableBoxFits :: "item \<Rightarrow> box \<Rightarrow> bool" where
  "suitableBoxFits it b =
    (item_length it \<le> box_length b \<and> item_width it \<le> box_width b \<and>
     item_height it \<le> box_height b \<and> weight it \<le> maxWeight b)"

text \<open>
  The reducer of \<open>individualShipmentCO2\<close>. The source sorts the global catalog in place
  before each search; the catalog is written in ascending volume, so the sort leaves it as
  it is (\<open>sortBoxesAsc_AMAZON\<close> below).
\<close>

definition individualStep :: "rat \<Rightarrow> item \<Rightarrow> rat" where
  "individualStep acc it =
    (case find (suitableBoxFits it) (sortBoxesAsc AMAZON_BOX_SIZES) of
       Some suitableBox \<Rightarrow> acc + baseCO2 suitableBox + (weight it * perKgCO2 suitableBox)
     | None \<Rightarrow> acc)"

definition calculateMetrics :: "packedBox list \<Rightarrow> item list \<Rightarrow> metrics" where
  "calculateMetrics pbs flatItemList =
    (let totalPackedVolume = foldl (\<lambda>acc b. acc + filledVolume b) 0 pbs;
         totalBoxesVolume = foldl (\<lambda>acc b. acc + volume b) 0 pbs;
         efficiency = (if totalBoxesVolume > 0
                       then (totalPackedVolume / totalBoxesVolume) * 100 else 0);
         optimalCO2 = foldl (\<lambda>acc b. acc + baseCO2 b + (totalWeight b * perKgCO2 b)) 0 pbs;
         individualShipmentCO2 = foldl individualStep 0 flatItemList
     in \<lparr>packedBoxes = pbs,
         packagingEfficiencyScore = efficiency,
         optimalCO2Impact = optimalCO2,
         co2SavedByConsolidation = individualShipmentCO2 - optimalCO2,
         totalBoxes = length pbs\<rparr>)"

subsection \<open>The consolidation simulator\<close>

record addResult =
  quantityAdded :: nat
  newPackedBoxes :: "packedBox list"
  success :: bool

text \<open>
  The \<open>for (let q = 0; q < quantityToTry; q++)\<close> loop, by the number of units still to
  try. Its scan for \<open>bestBoxIndex\<close> is, statement for statement, the scan of Phase 2
  (\<^const>\<open>scanBoxes\<close>). The loop ends (\<open>break\<close>) at the first unit with no box.
\<close>

fun addUnits :: "item \<Rightarrow> nat \<Rightarrow> packedBox list \<Rightarrow> nat \<Rightarrow> nat \<times> packedBox list" where
  "addUnits itemTypeToAdd 0 simulated itemsSuccessfullyAdded =
     (itemsSuccessfullyAdded, simulated)"
| "addUnits itemTypeToAdd (Suc q) simulated itemsSuccessfullyAdded =
     (case bestFitBoxIndex itemTypeToAdd simulated of
        Some i \<Rightarrow>
          addUnits itemTypeToAdd q (simulated[i := addItem itemTypeToAdd (simulated ! i)])
            (Suc itemsSuccessfullyAdded)
      | None \<Rightarrow> (itemsSuccessfullyAdded, simulated))"

text \<open>
  \<open>existingPackedBoxes.map(box => ({ ...box, items: [...box.items] }))\<close>: a new object
  and a new items array for each box, with the same contents.
\<close>

definition copyBoxes :: "packedBox list \<Rightarrow> packedBox list" where
  "copyBoxes existingPackedBoxes = map (\<lambda>b. b\<lparr>items := items b\<rparr>) existingPackedBoxes"

definition tryAddItemsToExistingBoxes :: "item \<Rightarrow> nat \<Rightarrow> packedBox list \<Rightarrow> addResult" where
  "tryAddItemsToExistingBoxes itemTypeToAdd quantityToTry existingPackedBoxes =
    (case addUnits itemTypeToAdd quantityToTry (copyBoxes existingPackedBoxes) 0 of
       (added, simulated) \<Rightarrow>
         \<lparr>quantityAdded = added, newPackedBoxes = simulated, success = (added > 0)\<rparr>)"

subsection \<open>The suggestion engine\<close>

text \<open>
  The two shapes of object pushed onto \<open>suggestions\<close>, told apart in the source by the
  field \<open>type\<close> (\<open>'suggestion'\<close> or \<open>'tooBig'\<close>).
\<close>

datatype suggestion =
    Suggestion (sugItem: item) (quantityToSuggest: nat) (fewerBoxes: bool)
      (efficiencyImprovement: rat) (co2SavedByCombining: rat)
      (newTotalBoxes: nat) (oldTotalBoxes: nat)
  | TooBig (sugItem: item) (message: string)

definition tooBigMessage :: string where
  "tooBigMessage = ''Too large or heavy to fit in with the current order without requiring additional boxes or a larger box type.''"

text \<open>
  The figures computed for one saved item type once \<open>quantityAdded\<close> units fit:
  \<open>co2SavedByCombining\<close> and \<open>efficiencyImprovement\<close>.
\<close>

definition combiningCO2 :: "item list \<Rightarrow> box list \<Rightarrow> metrics \<Rightarrow> item \<Rightarrow> addResult \<Rightarrow> rat" where
  "combiningCO2 currentFlatItems boxTypes originalMetrics savedItemType r =
    (let hypotheticalItemsCombined = currentFlatItems @ replicate (quantityAdded r) savedItemType;
         hypotheticalMetrics = calculateMetrics (newPackedBoxes r) hypotheticalItemsCombined;
         savedItemsOnlyFlatList = replicate (quantityAdded r) savedItemType;
         savedItemsOnlyPackedBoxes = packOptimal savedItemsOnlyFlatList boxTypes;
         savedItemsOnlyMetrics = calculateMetrics savedItemsOnlyPackedBoxes savedItemsOnlyFlatList;
         co2IfSavedItemShippedSeparately = optimalCO2Impact savedItemsOnlyMetrics;
         totalCO2IfSeparate = optimalCO2Impact originalMetrics + co2IfSavedItemShippedSeparately
     in totalCO2IfSeparate - optimalCO2Impact hypotheticalMetrics)"

definition combiningEfficiency :: "item list \<Rightarrow> metrics \<Rightarrow> item \<Rightarrow> addResult \<Rightarrow> rat" where
  "combiningEfficiency currentFlatItems originalMetrics savedItemType r =
    (let hypotheticalItemsCombined = currentFlatItems @ replicate (quantityAdded r) savedItemType;
         hypotheticalMetrics = calculateMetrics (newPackedBoxes r) hypotheticalItemsCombined
     in packagingEfficiencyScore hypotheticalMetrics - packagingEfficiencyScore originalMetrics)"

text \<open>The body of the \<open>for (const itemId in savedForLaterItemsMap)\<close> loop: what it pushes.\<close>

definition suggestFor :: "item list \<Rightarrow> box list \<Rightarrow> packedBox list \<Rightarrow> metrics \<Rightarrow> item
    \<Rightarrow> suggestion list" where
  "suggestFor currentFlatItems boxTypes originalPackedBoxes originalMetrics savedItemType =
    (let r = tryAddItemsToExistingBoxes savedItemType (quantity savedItemType) originalPackedBoxes
     in if quantityAdded r > 0
        then
          (let co2 = combiningCO2 currentFlatItems boxTypes originalMetrics savedItemType r;
               eff = combiningEfficiency currentFlatItems originalMetrics savedItemType r
           in if co2 > 1 / 100 \<or> eff > 1 / 10
              then [Suggestion savedItemType (quantityAdded r) False eff co2
                      (totalBoxes originalMetrics) (totalBoxes originalMetrics)]
              else [])
        else [TooBig savedItemType tooBigMessage])"

text \<open>
  \<open>savedForLaterItemsMap\<close> is an object from item ids to saved items. \<open>for ... in\<close>
  visits its keys in a fixed order (insertion order for the ids of the product list, which
  are not numerals), so the model is the list of its entries in that order.
\<close>

fun suggestLoop :: "item list \<Rightarrow> box list \<Rightarrow> packedBox list \<Rightarrow> metrics
    \<Rightarrow> (string \<times> item) list \<Rightarrow> suggestion list \<Rightarrow> suggestion list" where
  "suggestLoop currentFlatItems boxTypes originalPackedBoxes originalMetrics [] suggestions =
     suggestions"
| "suggestLoop currentFlatItems boxTypes originalPackedBoxes originalMetrics
     ((itemId, savedItemType) # rest) suggestions =
     suggestLoop currentFlatItems boxTypes originalPackedBoxes originalMetrics rest
       (suggestions @ suggestFor currentFlatItems boxTypes originalPackedBoxes originalMetrics
          savedItemType)"

definition getBulkOrderSuggestions :: "item list \<Rightarrow> (string \<times> item) list \<Rightarrow> box list
    \<Rightarrow> suggestion list" where
  "getBulkOrderSuggestions currentFlatItems savedForLaterItemsMap boxTypes =
    (if savedForLaterItemsMap = [] then []
     else
       (let originalPackedBoxes = packOptimal currentFlatItems boxTypes;
            originalMetrics = calculateMetrics originalPackedBoxes currentFlatItems
        in suggestLoop currentFlatItems boxTypes originalPackedBoxes originalMetrics
             savedForLaterItemsMap []))"

section \<open>The packing engine and the simulator over an explicit store\<close>

text \<open>
  JavaScript arrays and objects are references, so whether a function changes what its
  caller holds depends on which arrays and objects it writes to. This part of the model
  keeps them in a store. An address is an index into one of the store's four tables, a new
  array or object takes the next free index, and a write replaces the entry at an address:
  \<^item> \<open>itemArrays\<close>: the arrays of items (the caller's \<open>items\<close>, \<open>sortedItems\<close>, and
    the \<open>items\<close> array of every packed box);
  \<^item> \<open>catalogs\<close>: the arrays of box types (\<open>boxTypes\<close>, \<open>sortedBoxesAsc\<close>);
  \<^item> \<open>boxObjs\<close>: the packed box objects; the fields copied from the box type by
    \<open>...boxType\<close> are numbers and a string, the field \<open>items\<close> is the address of an item
    array;
  \<^item> \<open>boxArrays\<close>: the arrays of packed boxes (\<open>packedBoxes\<close>, \<open>existingPackedBoxes\<close>,
    \<open>simulatedPackedBoxes\<close>), each a list of addresses of box objects.
  No statement of \<open>packOptimal\<close> or of \<open>tryAddItemsToExistingBoxes\<close> assigns to a field
  of an item or of a box type, so these are values inside the arrays. The work lists \<open>unpackedItems\<close> and \<open>itemsToRecheck\<close> are
  created by the function, never stored in an object and never returned; they stay lists.
\<close>

record boxObj =
  objType :: box
  objItems :: nat
  objFilledVolume :: rat
  objTotalWeight :: rat

record store =
  itemArrays :: "item list list"
  catalogs :: "box list list"
  boxObjs :: "boxObj list"
  boxArrays :: "nat list list"

text \<open>Allocation: the new array or object, and its address.\<close>

definition newItemArray :: "store \<Rightarrow> item list \<Rightarrow> store \<times> nat" where
  "newItemArray st xs = (st\<lparr>itemArrays := itemArrays st @ [xs]\<rparr>, length (itemArrays st))"

definition newCatalog :: "store \<Rightarrow> box list \<Rightarrow> store \<times> nat" where
  "newCatalog st bs = (st\<lparr>catalogs := catalogs st @ [bs]\<rparr>, length (catalogs st))"

definition newBoxObj :: "store \<Rightarrow> boxObj \<Rightarrow> store \<times> nat" where
  "newBoxObj st ob = (st\<lparr>boxObjs := boxObjs st @ [ob]\<rparr>, length (boxObjs st))"

definition newBoxArray :: "store \<Rightarrow> nat list \<Rightarrow> store \<times> nat" where
  "newBoxArray st refs = (st\<lparr>boxArrays := boxArrays st @ [refs]\<rparr>, length (boxArrays st))"

text \<open>The in-place \<open>sort\<close> of an item array and of a catalog.\<close>

definition sortItemsInPlace :: "store \<Rightarrow> nat \<Rightarrow> store" where
  "sortItemsInPlace st a = st\<lparr>itemArrays := (itemArrays st)[a := sortItemsDesc (itemArrays st ! a)]\<rparr>"

definition sortCatalogInPlace :: "store \<Rightarrow> nat \<Rightarrow> store" where
  "sortCatalogInPlace st a = st\<lparr>catalogs := (catalogs st)[a := sortBoxesAsc (catalogs st ! a)]\<rparr>"

text \<open>\<open>packedBoxes.push(newBox)\<close>\<close>

definition pushBox :: "store \<Rightarrow> nat \<Rightarrow> nat \<Rightarrow> store" where
  "pushBox st arr ref = st\<lparr>boxArrays := (boxArrays st)[arr := boxArrays st ! arr @ [ref]]\<rparr>"

text \<open>
  The three statements that place an item, on the box object at \<open>ref\<close>: a push onto its
  items array and an update of its two totals.
\<close>

definition placeItem :: "store \<Rightarrow> nat \<Rightarrow> item \<Rightarrow> store" where
  "placeItem st ref it =
    (let ob = boxObjs st ! ref
     in st\<lparr>itemArrays := (itemArrays st)[objItems ob := itemArrays st ! objItems ob @ [it]],
           boxObjs := (boxObjs st)[ref := ob\<lparr>objFilledVolume := objFilledVolume ob + getItemVolume it,
                                            objTotalWeight := objTotalWeight ob + weight it\<rparr>]\<rparr>)"

text \<open>What a read of the box object at \<open>ref\<close> sees: its fields and the contents of its items array.\<close>

definition viewBox :: "store \<Rightarrow> nat \<Rightarrow> packedBox" where
  "viewBox st ref =
    (let ob = boxObjs st ! ref
     in openBox (objType ob) (itemArrays st ! objItems ob) (objFilledVolume ob) (objTotalWeight ob))"

definition viewBoxes :: "store \<Rightarrow> nat \<Rightarrow> packedBox list" where
  "viewBoxes st arr = map (viewBox st) (boxArrays st ! arr)"

text \<open>The fill-further loop of Phase 2 on the box object at \<open>ref\<close>.\<close>

fun fillBoxAt :: "store \<Rightarrow> nat \<Rightarrow> item list \<Rightarrow> store \<times> item list" where
  "fillBoxAt st ref [] = (st, [])"
| "fillBoxAt st ref (otherItem # rest) =
     (if doesItemFit otherItem (viewBox st ref) (filledVolume (viewBox st ref))
           (totalWeight (viewBox st ref))
      then fillBoxAt (placeItem st ref otherItem) ref rest
      else (case fillBoxAt st ref rest of
              (st', unpacked) \<Rightarrow> (st', otherItem # unpacked)))"

lemma fillBoxAt_length: "fillBoxAt st ref its = (st', rest) \<Longrightarrow> length rest \<le> length its"
proof (induction its arbitrary: st st' rest)
  case Nil
  then show ?case by simp
next
  case (Cons it its)
  show ?case
  proof (cases "doesItemFit it (viewBox st ref) (filledVolume (viewBox st ref))
           (totalWeight (viewBox st ref))")
    case True
    with Cons.prems have "fillBoxAt (placeItem st ref it) ref its = (st', rest)" by simp
    from Cons.IH [OF this] show ?thesis by simp
  next
    case False
    obtain st2 rest2 where r: "fillBoxAt st ref its = (st2, rest2)"
      by (cases "fillBoxAt st ref its")
    with False Cons.prems have "rest = it # rest2" by simp
    with Cons.IH [OF r] show ?thesis by simp
  qed
qed

text \<open>
  \<open>{ ...newBoxType, items: [currentItem], filledVolume: ..., totalWeight: ... }\<close>: a new
  items array and a new box object.
\<close>

definition openBoxAt :: "store \<Rightarrow> box \<Rightarrow> item \<Rightarrow> store \<times> nat" where
  "openBoxAt st newBoxType currentItem =
    (case newItemArray st [currentItem] of
       (st1, itemsAddr) \<Rightarrow>
         newBoxObj st1 \<lparr>objType = newBoxType, objItems = itemsAddr,
           objFilledVolume = getItemVolume currentItem,
           objTotalWeight = weight currentItem\<rparr>)"

text \<open>
  The \<open>while\<close> loop of Phase 2; \<open>packedBoxes\<close> is the box array at address \<open>arr\<close>. The
  scan for the best fit only reads, so it is \<^const>\<open>bestFitBoxIndex\<close> on what the reads see.
\<close>

function packLoopAt :: "box list \<Rightarrow> store \<Rightarrow> nat \<Rightarrow> item list \<Rightarrow> store" where
  "packLoopAt sortedBoxesAsc st arr [] = st"
| "packLoopAt sortedBoxesAsc st arr (currentItem # unpackedItems) =
     (case bestFitBoxIndex currentItem (viewBoxes st arr) of
        Some i \<Rightarrow>
          (case fillBoxAt (placeItem st (boxArrays st ! arr ! i) currentItem)
                  (boxArrays st ! arr ! i) unpackedItems of
             (st', stillUnpacked) \<Rightarrow> packLoopAt sortedBoxesAsc st' arr stillUnpacked)
      | None \<Rightarrow>
          (case find (newBoxFits currentItem) sortedBoxesAsc of
             Some newBoxType \<Rightarrow>
               (case openBoxAt st newBoxType currentItem of
                  (st1, newBox) \<Rightarrow>
                    (case fillBoxAt st1 newBox unpackedItems of
                       (st2, stillUnpacked) \<Rightarrow>
                         packLoopAt sortedBoxesAsc (pushBox st2 arr newBox) arr stillUnpacked))
           | None \<Rightarrow> packLoopAt sortedBoxesAsc st arr unpackedItems))"
  by pat_completeness auto
termination
  by (relation "measure (\<lambda>(sb, st, arr, its). length its)")
     (auto dest: fillBoxAt_length [OF sym])

text \<open>
  \<open>packOptimal\<close> on the item array at \<open>itemsAddr\<close> and the catalog at \<open>catAddr\<close>: the
  store after the call and the address of the returned array of packed boxes. The single
  box of Phase 1 has \<open>items: sortedItems\<close>, the sorted copy itself.
\<close>

definition packOptimalAt :: "store \<Rightarrow> nat \<Rightarrow> nat \<Rightarrow> store \<times> nat" where
  "packOptimalAt st itemsAddr catAddr =
    (if itemArrays st ! itemsAddr = [] then newBoxArray st []
     else
       (case newItemArray st (itemArrays st ! itemsAddr) of
          (st1, sortedItems) \<Rightarrow>
            (case newCatalog (sortItemsInPlace st1 sortedItems) (catalogs st1 ! catAddr) of
               (st2, sortedBoxes) \<Rightarrow>
                 (let st3 = sortCatalogInPlace st2 sortedBoxes
                  in case singleBox (catalogs st3 ! sortedBoxes) (itemArrays st3 ! sortedItems) of
                       Some pb \<Rightarrow>
                         (case newBoxObj st3 \<lparr>objType = boxTypeOf pb, objItems = sortedItems,
                                 objFilledVolume = filledVolume pb,
                                 objTotalWeight = totalWeight pb\<rparr> of
                            (st4, single) \<Rightarrow> newBoxArray st4 [single])
                     | None \<Rightarrow>
                         (case newBoxArray st3 [] of
                            (st4, packed) \<Rightarrow>
                              (packLoopAt (catalogs st3 ! sortedBoxes) st4 packed
                                 (itemArrays st3 ! sortedItems), packed))))))"

text \<open>
  \<open>existingPackedBoxes.map(box => ({ ...box, items: [...box.items] }))\<close>: for each box, a
  new items array with the same items and a new object with the same fields but this array.
\<close>

fun copyBoxesAt :: "store \<Rightarrow> nat list \<Rightarrow> store \<times> nat list" where
  "copyBoxesAt st [] = (st, [])"
| "copyBoxesAt st (ref # refs) =
     (case newItemArray st (itemArrays st ! objItems (boxObjs st ! ref)) of
        (st1, itemsAddr) \<Rightarrow>
          (case newBoxObj st1 ((boxObjs st ! ref)\<lparr>objItems := itemsAddr\<rparr>) of
             (st2, copy) \<Rightarrow>
               (case copyBoxesAt st2 refs of
                  (st3, copies) \<Rightarrow> (st3, copy # copies))))"

fun addUnitsAt :: "store \<Rightarrow> item \<Rightarrow> nat \<Rightarrow> nat \<Rightarrow> nat \<Rightarrow> store \<times> nat" where
  "addUnitsAt st itemTypeToAdd 0 arr itemsSuccessfullyAdded = (st, itemsSuccessfullyAdded)"
| "addUnitsAt st itemTypeToAdd (Suc q) arr itemsSuccessfullyAdded =
     (case bestFitBoxIndex itemTypeToAdd (viewBoxes st arr) of
        Some i \<Rightarrow>
          addUnitsAt (placeItem st (boxArrays st ! arr ! i) itemTypeToAdd) itemTypeToAdd q arr
            (Suc itemsSuccessfullyAdded)
      | None \<Rightarrow> (st, itemsSuccessfullyAdded))"

text \<open>
  \<open>tryAddItemsToExistingBoxes\<close> on the box array at \<open>existing\<close>: the store after the call,
  \<open>quantityAdded\<close> and the address of \<open>newPackedBoxes\<close>.
\<close>

definition tryAddItemsToExistingBoxesAt :: "store \<Rightarrow> item \<Rightarrow> nat \<Rightarrow> nat \<Rightarrow> store \<times> nat \<times> nat" where
  "tryAddItemsToExistingBoxesAt st itemTypeToAdd quantityToTry existing =
    (case copyBoxesAt st (boxArrays st ! existing) of
       (st1, copies) \<Rightarrow>
         (case newBoxArray st1 copies of
            (st2, simulated) \<Rightarrow>
              (case addUnitsAt st2 itemTypeToAdd quantityToTry simulated 0 of
                 (st3, added) \<Rightarrow> (st3, added, simulated))))"

text \<open>
  Everything that was in the store before is in it after, unchanged: each table of the
  earlier store is an initial part of the same table of the later one.
\<close>

definition unchanged :: "store \<Rightarrow> store \<Rightarrow> bool" where
  "unchanged st st' =
    (take (length (itemArrays st)) (itemArrays st') = itemArrays st \<and>
     take (length (catalogs st)) (catalogs st') = catalogs st \<and>
     take (length (boxObjs st)) (boxObjs st') = boxObjs st \<and>
     take (length (boxArrays st)) (boxArrays st') = boxArrays st)"

section \<open>Notions of the specification\<close>

text \<open>
  The definitions of this section are not translated from the code. They say, in the
  specification's words, what the properties below are about: which inputs the engine is
  written for, what a consistent packed box is, what the best-fit rule is, what the
  baseline carbon is. With them come the example inputs that the properties are tried on,
  and the notions used to say that a store is left as it was.
\<close>

text \<open>
  The items the engine is written for: the specification's items have positive dimensions
  and a positive weight, and the engine does not check it.
\<close>

definition validItem :: "item \<Rightarrow> bool" where
  "validItem it = (0 < item_length it \<and> 0 < item_width it \<and> 0 < item_height it \<and> 0 < weight it)"

text \<open>The three axis comparisons of \<open>doesItemFit\<close>: no rotation, axis by axis.\<close>

definition axesFit :: "item \<Rightarrow> 'a box_scheme \<Rightarrow> bool" where
  "axesFit it b = (item_length it \<le> box_length b \<and> item_width it \<le> box_width b \<and>
     item_height it \<le> box_height b)"

text \<open>
  The invariant of a packed box: its two totals are the sums over its items, and they are
  within the limits of its box type.
\<close>

definition packedOK :: "packedBox \<Rightarrow> bool" where
  "packedOK pb =
    (filledVolume pb = sum_list (map getItemVolume (items pb)) \<and>
     totalWeight pb = sum_list (map weight (items pb)) \<and>
     filledVolume pb \<le> volume pb \<and>
     totalWeight pb \<le> maxWeight pb)"

text \<open>The item fits a packed box as it is filled now.\<close>

definition fitsNow :: "item \<Rightarrow> packedBox \<Rightarrow> bool" where
  "fitsNow it b = doesItemFit it b (filledVolume b) (totalWeight b)"

text \<open>
  The best-fit rule in the specification's words: box \<open>i\<close> takes the item, no box that
  takes it gives a higher fill percentage after the placement, and every earlier box that
  takes it gives a lower one.
\<close>

definition isBestFit :: "item \<Rightarrow> packedBox list \<Rightarrow> nat \<Rightarrow> bool" where
  "isBestFit it bs i =
    (i < length bs \<and> fitsNow it (bs ! i) \<and>
     (\<forall>j\<in>{0..<length bs}. fitsNow it (bs ! j) \<longrightarrow>
        potentialNewFill it (bs ! j) \<le> potentialNewFill it (bs ! i)) \<and>
     (\<forall>j\<in>{0..<i}. fitsNow it (bs ! j) \<longrightarrow>
        potentialNewFill it (bs ! j) < potentialNewFill it (bs ! i)))"

text \<open>
  \<open>k\<close> units of an item were placed into the boxes \<open>bs\<close>, one at a time and each by the
  best-fit rule, and the boxes are then \<open>bs'\<close>.
\<close>

fun placedUnits :: "item \<Rightarrow> packedBox list \<Rightarrow> nat \<Rightarrow> packedBox list \<Rightarrow> bool" where
  "placedUnits it bs 0 bs' = (bs' = bs)"
| "placedUnits it bs (Suc k) bs' =
     (\<exists>i\<in>{0..<length bs}. isBestFit it bs i \<and>
        placedUnits it (bs[i := addItem it (bs ! i)]) k bs')"

text \<open>
  The specification's condition on a box type: its declared volume is at least
  length \<times> width \<times> height.
\<close>

definition volumeCoversDims :: "box \<Rightarrow> bool" where
  "volumeCoversDims b = (box_length b * box_width b * box_height b \<le> volume b)"

text \<open>Four entries of the product list of \<open>App.jsx\<close>, as one unit in the cart.\<close>

definition book :: item where
  "book = \<lparr>item_id = ''book'', item_name = ''Book'', item_length = 25, item_width = 18,
     item_height = 4, weight = 8 / 10, quantity = 1\<rparr>"

definition mug :: item where
  "mug = \<lparr>item_id = ''mug'', item_name = ''Coffee Mug'', item_length = 12, item_width = 9,
     item_height = 10, weight = 4 / 10, quantity = 1\<rparr>"

definition laptop :: item where
  "laptop = \<lparr>item_id = ''laptop'', item_name = ''Laptop'', item_length = 35, item_width = 25,
     item_height = 3, weight = 2, quantity = 1\<rparr>"

definition keyboard :: item where
  "keyboard = \<lparr>item_id = ''keyboard'', item_name = ''Keyboard'', item_length = 45,
     item_width = 15, item_height = 4, weight = 1, quantity = 1\<rparr>"

text \<open>
  All items of a list fit together in a box type: each fits axis by axis, and the total
  volume and the total weight are within the limits.
\<close>

definition fitsTogether :: "item list \<Rightarrow> box \<Rightarrow> bool" where
  "fitsTogether its b =
    (list_all (\<lambda>it. axesFit it b) its \<and>
     sum_list (map getItemVolume its) \<le> volume b \<and>
     sum_list (map weight its) \<le> maxWeight b)"

text \<open>A list of items is in order of descending volume.\<close>

definition descendingVolume :: "item list \<Rightarrow> bool" where
  "descendingVolume its = sorted (map (\<lambda>it. - getItemVolume it) its)"

text \<open>
  The baseline carbon in the specification's words: each item ships alone in the box type
  of least volume among those of \<open>AMAZON_BOX_SIZES\<close> that take it when empty; an item
  that no box type takes costs nothing.
\<close>

definition smallestHolding :: "item \<Rightarrow> box option" where
  "smallestHolding it =
    (case filter (\<lambda>b. doesItemFit it b 0 0) AMAZON_BOX_SIZES of
       [] \<Rightarrow> None
     | b # bs \<Rightarrow> Some (arg_min_list volume (b # bs)))"

definition baselineCarbon :: "item list \<Rightarrow> rat" where
  "baselineCarbon flat =
    sum_list (map (\<lambda>it. case smallestHolding it of
                           None \<Rightarrow> 0
                         | Some b \<Rightarrow> baseCO2 b + weight it * perKgCO2 b) flat)"

text \<open>The carbon impact of a packing: fixed cost plus cost per kilogram, box by box.\<close>

definition carbonImpact :: "packedBox list \<Rightarrow> rat" where
  "carbonImpact pbs = sum_list (map (\<lambda>b. baseCO2 b + totalWeight b * perKgCO2 b) pbs)"

text \<open>A box type that is not in \<open>AMAZON_BOX_SIZES\<close> and costs more than any of them.\<close>

definition crate :: box where
  "crate = \<lparr>name = ''Crate'', box_length = 60, box_width = 40, box_height = 30,
     volume = 72000, maxWeight = 22, baseCO2 = 5, perKgCO2 = 1\<rparr>"

text \<open>
  A box type can hold an item alone: the item is within its axis limits and its maximum
  weight. An item is unpackable when no box type of the catalog can.
\<close>

definition holdsAlone :: "item \<Rightarrow> box \<Rightarrow> bool" where
  "holdsAlone it b = (axesFit it b \<and> weight it \<le> maxWeight b)"

definition unpackable :: "box list \<Rightarrow> item \<Rightarrow> bool" where
  "unpackable boxTypes it = list_all (\<lambda>b. \<not> holdsAlone it b) boxTypes"

text \<open>All items of a packing, box after box.\<close>

definition packedItems :: "packedBox list \<Rightarrow> item list" where
  "packedItems pbs = concat (map items pbs)"

text \<open>An item heavier than the maximum weight of every box type of \<open>AMAZON_BOX_SIZES\<close>.\<close>

definition anvil :: item where
  "anvil = \<lparr>item_id = ''anvil'', item_name = ''Anvil'', item_length = 20, item_width = 10,
     item_height = 10, weight = 30, quantity = 1\<rparr>"

text \<open>
  For one saved item type, against the packing of the current cart alone: the result of
  the simulator for its whole saved quantity, the suggestion entry the engine builds from
  it, and the test of the two thresholds.
\<close>

definition unitsFitting :: "item list \<Rightarrow> box list \<Rightarrow> item \<Rightarrow> addResult" where
  "unitsFitting cur boxTypes it =
    tryAddItemsToExistingBoxes it (quantity it) (packOptimal cur boxTypes)"

definition foldable :: "item list \<Rightarrow> box list \<Rightarrow> item \<Rightarrow> suggestion" where
  "foldable cur boxTypes it =
    (let om = calculateMetrics (packOptimal cur boxTypes) cur;
         r = unitsFitting cur boxTypes it
     in Suggestion it (quantityAdded r) False
          (combiningEfficiency cur om it r) (combiningCO2 cur boxTypes om it r)
          (totalBoxes om) (totalBoxes om))"

definition worthSuggesting :: "item list \<Rightarrow> box list \<Rightarrow> item \<Rightarrow> bool" where
  "worthSuggesting cur boxTypes it =
    (let om = calculateMetrics (packOptimal cur boxTypes) cur;
         r = unitsFitting cur boxTypes it
     in combiningCO2 cur boxTypes om it r > 1 / 100 \<or> combiningEfficiency cur om it r > 1 / 10)"

text \<open>A saved-for-later map with three mugs and an anvil.\<close>

definition threeMugs :: item where
  "threeMugs = mug\<lparr>quantity := 3\<rparr>"

definition savedExample :: "(string \<times> item) list" where
  "savedExample = [(''mug'', threeMugs), (''anvil'', anvil)]"

text \<open>
  Relative to a store \<open>base\<close>: a step from \<open>st\<close> to \<open>st'\<close> leaves every address of
  \<open>base\<close> as it is and frees nothing (\<open>extends\<close>); a box object is newer than \<open>base\<close>,
  and so is its items array (\<open>freshBox\<close>); \<open>st\<close> has every address of \<open>base\<close>
  (\<open>covers\<close>).
\<close>

definition extends :: "store \<Rightarrow> store \<Rightarrow> store \<Rightarrow> bool" where
  "extends base st st' =
    (take (length (itemArrays base)) (itemArrays st') = take (length (itemArrays base)) (itemArrays st) \<and>
     take (length (catalogs base)) (catalogs st') = take (length (catalogs base)) (catalogs st) \<and>
     take (length (boxObjs base)) (boxObjs st') = take (length (boxObjs base)) (boxObjs st) \<and>
     take (length (boxArrays base)) (boxArrays st') = take (length (boxArrays base)) (boxArrays st) \<and>
     length (itemArrays st) \<le> length (itemArrays st') \<and>
     length (catalogs st) \<le> length (catalogs st') \<and>
     length (boxObjs st) \<le> length (boxObjs st') \<and>
     length (boxArrays st) \<le> length (boxArrays st'))"

definition freshBox :: "store \<Rightarrow> store \<Rightarrow> nat \<Rightarrow> bool" where
  "freshBox base st ref =
    (length (boxObjs base) \<le> ref \<and> ref < length (boxObjs st) \<and>
     length (itemArrays base) \<le> objItems (boxObjs st ! ref))"

definition covers :: "store \<Rightarrow> store \<Rightarrow> bool" where
  "covers base st =
    (length (itemArrays base) \<le> length (itemArrays st) \<and>
     length (catalogs base) \<le> length (catalogs st) \<and>
     length (boxObjs base) \<le> length (boxObjs st) \<and>
     length (boxArrays base) \<le> length (boxArrays st))"

text \<open>The box array at \<open>arr\<close> is newer than \<open>base\<close> and holds only box objects newer than \<open>base\<close>.\<close>

definition ownsArray :: "store \<Rightarrow> store \<Rightarrow> nat \<Rightarrow> bool" where
  "ownsArray base st arr =
    (covers base st \<and> length (boxArrays base) \<le> arr \<and> arr < length (boxArrays st) \<and>
     (\<forall>r\<in>set (boxArrays st ! arr). freshBox base st r))"

text \<open>
  A box object and its items array are in the store (\<open>inStore\<close>); the box objects of a
  list are in the store and no two of them share an items array (\<open>separated\<close>).
\<close>

definition inStore :: "store \<Rightarrow> nat \<Rightarrow> bool" where
  "inStore st ref = (ref < length (boxObjs st) \<and> objItems (boxObjs st ! ref) < length (itemArrays st))"

definition separated :: "store \<Rightarrow> nat list \<Rightarrow> bool" where
  "separated st refs =
    (distinct (map (\<lambda>r. objItems (boxObjs st ! r)) refs) \<and> list_all (inStore st) refs)"

text \<open>
  A store with a cart of a book and a mug, a second array with the same items, the
  catalog, and the one box that holds the cart, in a box array.
\<close>

definition exampleStore :: store where
  "exampleStore =
    \<lparr>itemArrays = [[book, mug], [book, mug]],
     catalogs = [AMAZON_BOX_SIZES],
     boxObjs = [\<lparr>objType = AMAZON_BOX_SIZES ! 0, objItems = 1,
                 objFilledVolume = 2880, objTotalWeight = 6 / 5\<rparr>],
     boxArrays = [[0]]\<rparr>"

section \<open>Properties\<close>

subsection \<open>Fitting along the axes, and the sequential test of Phase 1\<close>

lemma validItem_volume_pos: "validItem it \<Longrightarrow> 0 < getItemVolume it"
  by (simp add: validItem_def getItemVolume_def)

lemma axes_volume_le:
  assumes "validItem it" "axesFit it b"
  shows "getItemVolume it \<le> box_length b * box_width b * box_height b"
proof -
  from assms have "item_length it * item_width it \<le> box_length b * box_width b"
    by (intro mult_mono) (auto simp: validItem_def axesFit_def intro: less_imp_le order_trans)
  moreover from assms have "0 \<le> item_length it * item_width it"
    by (simp add: validItem_def)
  ultimately show ?thesis
    unfolding getItemVolume_def using assms
    by (intro mult_mono) (auto simp: validItem_def axesFit_def intro: less_imp_le order_trans)
qed

lemma newBoxFits_eq:
  assumes "validItem it" and "box_length b * box_width b * box_height b \<le> volume b"
  shows "newBoxFits it b = doesItemFit it b 0 0"
  using axes_volume_le [OF assms(1), of b] assms(2)
  by (auto simp: newBoxFits_def doesItemFit_def axesFit_def)

lemma suitableBoxFits_eq:
  assumes "validItem it" and "box_length b * box_width b * box_height b \<le> volume b"
  shows "suitableBoxFits it b = doesItemFit it b 0 0"
  using axes_volume_le [OF assms(1), of b] assms(2)
  by (auto simp: suitableBoxFits_def doesItemFit_def axesFit_def)

lemma allItemsFit_Some:
  "allItemsFit its b fv tw = Some (fv', tw') \<Longrightarrow>
     fv' = fv + sum_list (map getItemVolume its) \<and> tw' = tw + sum_list (map weight its)"
proof (induction its arbitrary: fv tw)
  case Nil
  then show ?case by simp
next
  case (Cons it its)
  from Cons.prems have "allItemsFit its b (fv + getItemVolume it) (tw + weight it) = Some (fv', tw')"
    by (simp split: if_splits)
  from Cons.IH [OF this] show ?case by (simp add: add.assoc)
qed

lemma allItemsFit_iff:
  assumes "\<forall>it\<in>set its. validItem it"
  shows "(allItemsFit its b fv tw \<noteq> None) =
     ((\<forall>it\<in>set its. axesFit it b) \<and> (its \<noteq> [] \<longrightarrow> fv + sum_list (map getItemVolume its) \<le> volume b \<and>
      tw + sum_list (map weight its) \<le> maxWeight b))"
  using assms
proof (induction its arbitrary: fv tw)
  case Nil
  then show ?case by simp
next
  case (Cons it its)
  have v: "0 \<le> sum_list (map getItemVolume its)"
    using Cons.prems by (intro sum_list_nonneg) (auto dest: validItem_volume_pos intro: less_imp_le)
  have w: "0 \<le> sum_list (map weight its)"
    using Cons.prems by (intro sum_list_nonneg) (auto simp: validItem_def intro: less_imp_le)
  have IH: "(allItemsFit its b (fv + getItemVolume it) (tw + weight it) \<noteq> None) =
     ((\<forall>x\<in>set its. axesFit x b) \<and> (its \<noteq> [] \<longrightarrow>
        fv + getItemVolume it + sum_list (map getItemVolume its) \<le> volume b \<and>
        tw + weight it + sum_list (map weight its) \<le> maxWeight b))"
    using Cons.prems by (intro Cons.IH) simp
  show ?case
  proof (cases "doesItemFit it b fv tw")
    case True
    then have "(allItemsFit (it # its) b fv tw \<noteq> None) =
        (allItemsFit its b (fv + getItemVolume it) (tw + weight it) \<noteq> None)"
      by simp
    also have "\<dots> = ((\<forall>x\<in>set (it # its). axesFit x b) \<and>
        fv + sum_list (map getItemVolume (it # its)) \<le> volume b \<and>
        tw + sum_list (map weight (it # its)) \<le> maxWeight b)"
      unfolding IH using True
      by (cases "its = []") (auto simp: doesItemFit_def axesFit_def add.assoc)
    finally show ?thesis by simp
  next
    case False
    then have "allItemsFit (it # its) b fv tw = None" by simp
    moreover have "\<not> (axesFit it b \<and> fv + sum_list (map getItemVolume (it # its)) \<le> volume b \<and>
        tw + sum_list (map weight (it # its)) \<le> maxWeight b)"
      using False v w by (auto simp: doesItemFit_def axesFit_def)
    ultimately show ?thesis by auto
  qed
qed

subsection \<open>Packed boxes keep their invariant\<close>

lemma addItem_fields [simp]:
  "items (addItem it pb) = items pb @ [it]"
  "filledVolume (addItem it pb) = filledVolume pb + getItemVolume it"
  "totalWeight (addItem it pb) = totalWeight pb + weight it"
  "volume (addItem it pb) = volume pb"
  "maxWeight (addItem it pb) = maxWeight pb"
  "box_length (addItem it pb) = box_length pb"
  "box_width (addItem it pb) = box_width pb"
  "box_height (addItem it pb) = box_height pb"
  "baseCO2 (addItem it pb) = baseCO2 pb"
  "perKgCO2 (addItem it pb) = perKgCO2 pb"
  "name (addItem it pb) = name pb"
  "boxTypeOf (addItem it pb) = boxTypeOf pb"
  by (simp_all add: addItem_def boxTypeOf_def)

lemma openBox_fields [simp]:
  "items (openBox b its fv tw) = its"
  "filledVolume (openBox b its fv tw) = fv"
  "totalWeight (openBox b its fv tw) = tw"
  "volume (openBox b its fv tw) = volume b"
  "maxWeight (openBox b its fv tw) = maxWeight b"
  "box_length (openBox b its fv tw) = box_length b"
  "box_width (openBox b its fv tw) = box_width b"
  "box_height (openBox b its fv tw) = box_height b"
  "baseCO2 (openBox b its fv tw) = baseCO2 b"
  "perKgCO2 (openBox b its fv tw) = perKgCO2 b"
  "name (openBox b its fv tw) = name b"
  "boxTypeOf (openBox b its fv tw) = b"
  by (simp_all add: openBox_def boxTypeOf_def)

lemma addItem_ok:
  "packedOK pb \<Longrightarrow> doesItemFit it pb (filledVolume pb) (totalWeight pb) \<Longrightarrow> packedOK (addItem it pb)"
  by (simp add: packedOK_def doesItemFit_def)

lemma fillBox_ok: "packedOK tb \<Longrightarrow> packedOK (fst (fillBox tb its))"
proof (induction its arbitrary: tb)
  case Nil
  then show ?case by simp
next
  case (Cons it its)
  show ?case
  proof (cases "doesItemFit it tb (filledVolume tb) (totalWeight tb)")
    case True
    then show ?thesis using Cons.IH [OF addItem_ok [OF Cons.prems True]] by simp
  next
    case False
    then show ?thesis using Cons.IH [OF Cons.prems] by (simp add: case_prod_beta)
  qed
qed

lemma fillBox_pending: "set (snd (fillBox tb its)) \<subseteq> set its"
proof (induction its arbitrary: tb)
  case Nil
  then show ?case by simp
next
  case (Cons it its)
  show ?case
  proof (cases "doesItemFit it tb (filledVolume tb) (totalWeight tb)")
    case True
    then show ?thesis using Cons.IH [of "addItem it tb"] by auto
  next
    case False
    then show ?thesis using Cons.IH [of tb] by (auto simp add: case_prod_beta)
  qed
qed

lemma doesItemFit_openBox [simp]:
  "doesItemFit it (openBox b its fv' tw') fv tw = doesItemFit it b fv tw"
  by (simp add: doesItemFit_def)

lemma scanBoxes_index:
  "scanBoxes it bs k (best, h) = (Some i, h') \<Longrightarrow>
     best = Some i \<or> (k \<le> i \<and> i < k + length bs \<and>
        doesItemFit it (bs ! (i - k)) (filledVolume (bs ! (i - k))) (totalWeight (bs ! (i - k))))"
proof (induction bs arbitrary: k best h)
  case Nil
  then show ?case by simp
next
  case (Cons b bs)
  show ?case
  proof (cases "doesItemFit it b (filledVolume b) (totalWeight b) \<and> volume b \<noteq> 0
         \<and> potentialNewFill it b > h")
    case True
    with Cons.prems have "scanBoxes it bs (Suc k) (Some k, potentialNewFill it b) = (Some i, h')"
      by simp
    from Cons.IH [OF this] True show ?thesis
      by (auto simp: nth_Cons' Suc_diff_le)
  next
    case False
    with Cons.prems have "scanBoxes it bs (Suc k) (best, h) = (Some i, h')"
      by auto
    from Cons.IH [OF this] show ?thesis
      by (auto simp: nth_Cons' Suc_diff_le)
  qed
qed

lemma bestFitBoxIndex_fits:
  assumes "bestFitBoxIndex it bs = Some i"
  shows "i < length bs \<and> doesItemFit it (bs ! i) (filledVolume (bs ! i)) (totalWeight (bs ! i))"
proof -
  obtain h' where "scanBoxes it bs 0 (None, - 1) = (Some i, h')"
    using assms unfolding bestFitBoxIndex_def by (cases "scanBoxes it bs 0 (None, - 1)") auto
  from scanBoxes_index [OF this] show ?thesis by simp
qed

text \<open>
  An invariant of the loop of Phase 2 holds of its result when it holds at the start and
  each of the three ways through the loop body keeps it: placing into an existing box,
  opening a new box, dropping the item.
\<close>

lemma packLoop_invariant:
  assumes init: "Inv pbs its w"
    and place: "\<And>pbs cur rest w i. Inv pbs (cur # rest) w \<Longrightarrow> bestFitBoxIndex cur pbs = Some i \<Longrightarrow>
        Inv (pbs[i := fst (fillBox (addItem cur (pbs ! i)) rest)])
            (snd (fillBox (addItem cur (pbs ! i)) rest)) w"
    and new: "\<And>pbs cur rest w nb. Inv pbs (cur # rest) w \<Longrightarrow> bestFitBoxIndex cur pbs = None \<Longrightarrow>
        find (newBoxFits cur) sb = Some nb \<Longrightarrow>
        Inv (pbs @ [fst (fillBox (openBox nb [cur] (getItemVolume cur) (weight cur)) rest)])
            (snd (fillBox (openBox nb [cur] (getItemVolume cur) (weight cur)) rest)) w"
    and drop: "\<And>pbs cur rest w. Inv pbs (cur # rest) w \<Longrightarrow> bestFitBoxIndex cur pbs = None \<Longrightarrow>
        find (newBoxFits cur) sb = None \<Longrightarrow> Inv pbs rest (w @ [unpackableWarning cur])"
  shows "Inv (fst (packLoop sb pbs its w)) [] (snd (packLoop sb pbs its w))"
  using init
proof (induction "length its" arbitrary: pbs its w rule: less_induct)
  case less
  show ?case
  proof (cases its)
    case Nil
    with less.prems show ?thesis by simp
  next
    case (Cons cur rest)
    note inv = less.prems [unfolded Cons]
    show ?thesis
    proof (cases "bestFitBoxIndex cur pbs")
      case (Some i)
      let ?r = "fillBox (addItem cur (pbs ! i)) rest"
      have "length (snd ?r) < length its"
        using fillBox_length [of "addItem cur (pbs ! i)" rest "fst ?r" "snd ?r"] Cons by simp
      from less.hyps [OF this place [OF inv Some]]
      show ?thesis using Cons Some by (simp add: case_prod_beta)
    next
      case None
      show ?thesis
      proof (cases "find (newBoxFits cur) sb")
        case (Some nb)
        let ?r = "fillBox (openBox nb [cur] (getItemVolume cur) (weight cur)) rest"
        have "length (snd ?r) < length its"
          using fillBox_length [of "openBox nb [cur] (getItemVolume cur) (weight cur)" rest
              "fst ?r" "snd ?r"] Cons by simp
        from less.hyps [OF this new [OF inv None Some]]
        show ?thesis using Cons None Some by (simp add: case_prod_beta)
      next
        case nf: None
        have "length rest < length its" using Cons by simp
        from less.hyps [OF this drop [OF inv None nf]]
        show ?thesis using Cons None nf by simp
      qed
    qed
  qed
qed

lemma packLoop_ok:
  assumes sb: "\<forall>b\<in>set sb. box_length b * box_width b * box_height b \<le> volume b"
    and "\<forall>it\<in>set its. validItem it"
    and "\<forall>pb\<in>set pbs. packedOK pb"
  shows "\<forall>pb\<in>set (fst (packLoop sb pbs its w)). packedOK pb"
proof -
  let ?Inv = "\<lambda>pbs its (w :: string list). (\<forall>pb\<in>set pbs. packedOK pb) \<and> (\<forall>it\<in>set its. validItem it)"
  have "?Inv (fst (packLoop sb pbs its w)) [] (snd (packLoop sb pbs its w))"
  proof (rule packLoop_invariant [where Inv = ?Inv])
    show "?Inv pbs its w" using assms by simp
  next
    fix pbs cur rest w i
    assume inv: "?Inv pbs (cur # rest) w" and best: "bestFitBoxIndex cur pbs = Some i"
    let ?r = "fillBox (addItem cur (pbs ! i)) rest"
    from bestFitBoxIndex_fits [OF best] have i: "i < length pbs"
      and fit: "doesItemFit cur (pbs ! i) (filledVolume (pbs ! i)) (totalWeight (pbs ! i))"
      by simp_all
    from i inv have "packedOK (pbs ! i)" by simp
    from fillBox_ok [OF addItem_ok [OF this fit]] have "packedOK (fst ?r)" .
    then have "\<forall>pb\<in>set (pbs[i := fst ?r]). packedOK pb"
      using inv by (auto dest!: set_update_subset_insert [THEN subsetD])
    moreover have "\<forall>it\<in>set (snd ?r). validItem it"
      using fillBox_pending [of "addItem cur (pbs ! i)" rest] inv by auto
    ultimately show "?Inv (pbs[i := fst ?r]) (snd ?r) w" by simp
  next
    fix pbs cur rest w nb
    assume inv: "?Inv pbs (cur # rest) w" and found: "find (newBoxFits cur) sb = Some nb"
    let ?fresh = "openBox nb [cur] (getItemVolume cur) (weight cur)"
    let ?r = "fillBox ?fresh rest"
    from found have nb: "nb \<in> set sb" and fits: "newBoxFits cur nb"
      by (auto simp: find_Some_iff)
    from inv have vc: "validItem cur" by simp
    from fits have "axesFit cur nb" by (simp add: newBoxFits_def axesFit_def)
    from axes_volume_le [OF vc this] nb sb
    have "getItemVolume cur \<le> volume nb" by force
    with fits have "packedOK ?fresh" by (simp add: packedOK_def newBoxFits_def)
    from fillBox_ok [OF this] have "packedOK (fst ?r)" .
    moreover have "\<forall>it\<in>set (snd ?r). validItem it"
      using fillBox_pending [of ?fresh rest] inv by auto
    ultimately show "?Inv (pbs @ [fst ?r]) (snd ?r) w" using inv by simp
  next
    fix pbs cur rest w
    assume "?Inv pbs (cur # rest) w"
    then show "?Inv pbs rest (w @ [unpackableWarning cur])" by simp
  qed
  then show ?thesis by simp
qed

lemma allItemsFit_bounds:
  "allItemsFit its b fv tw = Some (fv', tw') \<Longrightarrow> its \<noteq> [] \<Longrightarrow>
     fv' \<le> volume b \<and> tw' \<le> maxWeight b"
proof (induction its arbitrary: fv tw)
  case Nil
  then show ?case by simp
next
  case (Cons it its)
  from Cons.prems(1) have fit: "doesItemFit it b fv tw"
    and rest: "allItemsFit its b (fv + getItemVolume it) (tw + weight it) = Some (fv', tw')"
    by (simp_all split: if_splits)
  show ?case
  proof (cases "its = []")
    case True
    with rest fit show ?thesis by (auto simp: doesItemFit_def)
  next
    case False
    from Cons.IH [OF rest False] show ?thesis .
  qed
qed

lemma singleBox_Some:
  assumes "singleBox bs its = Some pb"
  shows "\<exists>b fv tw. b \<in> set bs \<and> allItemsFit its b 0 0 = Some (fv, tw) \<and> pb = openBox b its fv tw"
  using assms
proof (induction bs)
  case Nil
  then show ?case by simp
next
  case (Cons b bs)
  show ?case
  proof (cases "allItemsFit its b 0 0")
    case None
    with Cons show ?thesis by auto
  next
    case (Some r)
    with Cons.prems show ?thesis by (cases r) auto
  qed
qed

lemma singleBox_ok:
  assumes "singleBox bs its = Some pb" "its \<noteq> []"
  shows "packedOK pb"
proof -
  from singleBox_Some [OF assms(1)] obtain b fv tw
    where fit: "allItemsFit its b 0 0 = Some (fv, tw)" and pb: "pb = openBox b its fv tw"
    by blast
  from allItemsFit_Some [OF fit] allItemsFit_bounds [OF fit assms(2)] pb
  show ?thesis by (simp add: packedOK_def)
qed

lemma set_sortBoxesAsc [simp]: "set (sortBoxesAsc bs) = set bs"
  by (simp add: sortBoxesAsc_def)

lemma set_sortItemsDesc [simp]: "set (sortItemsDesc its) = set its"
  by (simp add: sortItemsDesc_def)

lemma mset_sortItemsDesc [simp]: "mset (sortItemsDesc its) = mset its"
  by (simp add: sortItemsDesc_def)

lemma packOptimal_ok:
  assumes "\<forall>b\<in>set boxTypes. box_length b * box_width b * box_height b \<le> volume b"
    and "\<forall>it\<in>set its. validItem it"
  shows "\<forall>pb\<in>set (packOptimal its boxTypes). packedOK pb"
proof (cases "its = []")
  case True
  then show ?thesis by (simp add: packOptimal_def packOptimalLog_def)
next
  case False
  then have ne: "sortItemsDesc its \<noteq> []"
    using set_sortItemsDesc [of its] by (metis set_empty)
  show ?thesis
  proof (cases "singleBox (sortBoxesAsc boxTypes) (sortItemsDesc its)")
    case (Some pb)
    from singleBox_ok [OF Some ne] Some False show ?thesis
      by (simp add: packOptimal_def packOptimalLog_def)
  next
    case None
    have "\<forall>pb\<in>set (fst (packLoop (sortBoxesAsc boxTypes) [] (sortItemsDesc its) [])). packedOK pb"
      using assms by (intro packLoop_ok) simp_all
    with None False show ?thesis
      by (simp add: packOptimal_def packOptimalLog_def)
  qed
qed

subsection \<open>The best-fit scan\<close>

text \<open>
  What the scan returns, for any start of the loop state: the highest fill percentage seen
  among the boxes that take the item, and the first index that reaches it.
\<close>

lemma scanBoxes_spec:
  assumes "scanBoxes it bs k (best, h) = (best', h')"
  shows "h \<le> h' \<and>
     (\<forall>j<length bs. fitsNow it (bs ! j) \<and> volume (bs ! j) \<noteq> 0 \<longrightarrow> potentialNewFill it (bs ! j) \<le> h') \<and>
     ((best' = best \<and> h' = h) \<or>
      (\<exists>j<length bs. best' = Some (k + j) \<and> fitsNow it (bs ! j) \<and> volume (bs ! j) \<noteq> 0 \<and>
          potentialNewFill it (bs ! j) = h' \<and> h < h' \<and>
          (\<forall>j'<j. fitsNow it (bs ! j') \<and> volume (bs ! j') \<noteq> 0 \<longrightarrow> potentialNewFill it (bs ! j') < h')))"
  using assms
proof (induction bs arbitrary: k best h)
  case Nil
  then show ?case by simp
next
  case (Cons b bs)
  let ?e = "\<lambda>x. fitsNow it x \<and> volume x \<noteq> 0"
  let ?p = "potentialNewFill it"
  show ?case
  proof (cases "?e b \<and> ?p b > h")
    case True
    with Cons.prems have "scanBoxes it bs (Suc k) (Some k, ?p b) = (best', h')"
      by (simp add: fitsNow_def)
    from Cons.IH [OF this]
    have le: "?p b \<le> h'"
      and all: "\<forall>j<length bs. ?e (bs ! j) \<longrightarrow> ?p (bs ! j) \<le> h'"
      and dj: "(best' = Some k \<and> h' = ?p b) \<or>
        (\<exists>j<length bs. best' = Some (Suc k + j) \<and> ?e (bs ! j) \<and> ?p (bs ! j) = h' \<and> ?p b < h' \<and>
          (\<forall>j'<j. ?e (bs ! j') \<longrightarrow> ?p (bs ! j') < h'))"
      by blast+
    have 1: "h \<le> h'" using True le by simp
    have 2: "\<forall>j<length (b # bs). ?e ((b # bs) ! j) \<longrightarrow> ?p ((b # bs) ! j) \<le> h'"
      using le all by (auto simp: nth_Cons split: nat.splits)
    from dj have 3: "\<exists>j<length (b # bs). best' = Some (k + j) \<and> ?e ((b # bs) ! j) \<and>
        ?p ((b # bs) ! j) = h' \<and> h < h' \<and>
        (\<forall>j'<j. ?e ((b # bs) ! j') \<longrightarrow> ?p ((b # bs) ! j') < h')"
    proof
      assume "best' = Some k \<and> h' = ?p b"
      with True show ?thesis by (intro exI [of _ 0]) simp
    next
      assume "\<exists>j<length bs. best' = Some (Suc k + j) \<and> ?e (bs ! j) \<and> ?p (bs ! j) = h' \<and>
          ?p b < h' \<and> (\<forall>j'<j. ?e (bs ! j') \<longrightarrow> ?p (bs ! j') < h')"
      then obtain j where j: "j < length bs" "best' = Some (Suc k + j)" "?e (bs ! j)"
        "?p (bs ! j) = h'" "?p b < h'" "\<forall>j'<j. ?e (bs ! j') \<longrightarrow> ?p (bs ! j') < h'"
        by blast
      have "\<forall>j'<Suc j. ?e ((b # bs) ! j') \<longrightarrow> ?p ((b # bs) ! j') < h'"
        using j(5,6) by (auto simp: nth_Cons split: nat.splits)
      with j True show ?thesis by (intro exI [of _ "Suc j"]) simp
    qed
    from 1 2 3 show ?thesis by blast
  next
    case False
    with Cons.prems have "scanBoxes it bs (Suc k) (best, h) = (best', h')"
      by (auto simp: fitsNow_def)
    from Cons.IH [OF this]
    have le: "h \<le> h'"
      and all: "\<forall>j<length bs. ?e (bs ! j) \<longrightarrow> ?p (bs ! j) \<le> h'"
      and dj: "(best' = best \<and> h' = h) \<or>
        (\<exists>j<length bs. best' = Some (Suc k + j) \<and> ?e (bs ! j) \<and> ?p (bs ! j) = h' \<and> h < h' \<and>
          (\<forall>j'<j. ?e (bs ! j') \<longrightarrow> ?p (bs ! j') < h'))"
      by blast+
    from False have b: "?e b \<Longrightarrow> ?p b \<le> h" by auto
    have 2: "\<forall>j<length (b # bs). ?e ((b # bs) ! j) \<longrightarrow> ?p ((b # bs) ! j) \<le> h'"
      using le all b by (auto simp: nth_Cons split: nat.splits)
    from dj have 3: "(best' = best \<and> h' = h) \<or> (\<exists>j<length (b # bs). best' = Some (k + j) \<and> ?e ((b # bs) ! j) \<and>
        ?p ((b # bs) ! j) = h' \<and> h < h' \<and>
        (\<forall>j'<j. ?e ((b # bs) ! j') \<longrightarrow> ?p ((b # bs) ! j') < h'))"
    proof
      assume "best' = best \<and> h' = h"
      then show ?thesis by simp
    next
      assume "\<exists>j<length bs. best' = Some (Suc k + j) \<and> ?e (bs ! j) \<and> ?p (bs ! j) = h' \<and>
          h < h' \<and> (\<forall>j'<j. ?e (bs ! j') \<longrightarrow> ?p (bs ! j') < h')"
      then obtain j where j: "j < length bs" "best' = Some (Suc k + j)" "?e (bs ! j)"
        "?p (bs ! j) = h'" "h < h'" "\<forall>j'<j. ?e (bs ! j') \<longrightarrow> ?p (bs ! j') < h'"
        by blast
      have "\<forall>j'<Suc j. ?e ((b # bs) ! j') \<longrightarrow> ?p ((b # bs) ! j') < h'"
        using j(5,6) b by (auto simp: nth_Cons split: nat.splits)
      with j have "\<exists>j<length (b # bs). best' = Some (k + j) \<and> ?e ((b # bs) ! j) \<and>
        ?p ((b # bs) ! j) = h' \<and> h < h' \<and>
        (\<forall>j'<j. ?e ((b # bs) ! j') \<longrightarrow> ?p ((b # bs) ! j') < h')"
        by (intro exI [of _ "Suc j"]) simp
      then show ?thesis ..
    qed
    from le 2 3 show ?thesis by blast
  qed
qed

lemma potentialNewFill_nonneg:
  "0 < volume b \<Longrightarrow> 0 \<le> filledVolume b \<Longrightarrow> 0 \<le> getItemVolume it \<Longrightarrow> 0 \<le> potentialNewFill it b"
  by (simp add: potentialNewFill_def)

lemma bestFitBoxIndex_None:
  assumes "\<forall>b\<in>set bs. 0 < volume b \<and> 0 \<le> filledVolume b" and "0 \<le> getItemVolume it"
  shows "(bestFitBoxIndex it bs = None) = (\<forall>b\<in>set bs. \<not> fitsNow it b)"
proof -
  obtain best' h' where r: "scanBoxes it bs 0 (None, - 1) = (best', h')"
    by (cases "scanBoxes it bs 0 (None, - 1)")
  note spec = scanBoxes_spec [OF r]
  show ?thesis
  proof
    assume "bestFitBoxIndex it bs = None"
    with r have "best' = None" by (simp add: bestFitBoxIndex_def)
    with spec have h': "h' = - 1" by auto
    show "\<forall>b\<in>set bs. \<not> fitsNow it b"
    proof
      fix b assume b: "b \<in> set bs"
      then obtain j where j: "j < length bs" "bs ! j = b" by (auto simp: in_set_conv_nth)
      from b assms have "0 \<le> potentialNewFill it b" "volume b \<noteq> 0"
        by (auto intro: potentialNewFill_nonneg)
      with spec j h' show "\<not> fitsNow it b" by force
    qed
  next
    assume none: "\<forall>b\<in>set bs. \<not> fitsNow it b"
    with spec have "best' = None" by auto
    with r show "bestFitBoxIndex it bs = None" by (simp add: bestFitBoxIndex_def)
  qed
qed

lemma bestFitBoxIndex_Some:
  assumes "\<forall>b\<in>set bs. 0 < volume b \<and> 0 \<le> filledVolume b" and "0 \<le> getItemVolume it"
  shows "(bestFitBoxIndex it bs = Some i) = isBestFit it bs i"
proof -
  obtain best' h' where r: "scanBoxes it bs 0 (None, - 1) = (best', h')"
    by (cases "scanBoxes it bs 0 (None, - 1)")
  note spec = scanBoxes_spec [OF r]
  have nz: "volume (bs ! j) \<noteq> 0" if "j < length bs" for j
    using assms(1) nth_mem [OF that] by fastforce
  show ?thesis
  proof
    assume "bestFitBoxIndex it bs = Some i"
    with r have b: "best' = Some i" by (simp add: bestFitBoxIndex_def)
    with spec have i: "i < length bs" "fitsNow it (bs ! i)" "potentialNewFill it (bs ! i) = h'"
      and before: "\<forall>j'<i. fitsNow it (bs ! j') \<and> volume (bs ! j') \<noteq> 0 \<longrightarrow> potentialNewFill it (bs ! j') < h'"
      by auto
    from spec have all: "\<forall>j<length bs. fitsNow it (bs ! j) \<and> volume (bs ! j) \<noteq> 0 \<longrightarrow> potentialNewFill it (bs ! j) \<le> h'"
      by blast
    show "isBestFit it bs i"
      unfolding isBestFit_def using i before all nz by auto
  next
    assume best: "isBestFit it bs i"
    then have i: "i < length bs" "fitsNow it (bs ! i)" by (simp_all add: isBestFit_def)
    then have "\<not> (\<forall>b\<in>set bs. \<not> fitsNow it b)" by auto
    with bestFitBoxIndex_None [OF assms] obtain i' where i': "bestFitBoxIndex it bs = Some i'"
      by auto
    with r have b: "best' = Some i'" by (simp add: bestFitBoxIndex_def)
    with spec have i'': "i' < length bs" "fitsNow it (bs ! i')" "potentialNewFill it (bs ! i') = h'"
      and before: "\<forall>j'<i'. fitsNow it (bs ! j') \<and> volume (bs ! j') \<noteq> 0 \<longrightarrow> potentialNewFill it (bs ! j') < h'"
      by auto
    from spec have all: "\<forall>j<length bs. fitsNow it (bs ! j) \<and> volume (bs ! j) \<noteq> 0 \<longrightarrow> potentialNewFill it (bs ! j) \<le> h'"
      by blast
    have "i' = i"
    proof (rule ccontr)
      assume "i' \<noteq> i"
      then consider "i' < i" | "i < i'" by linarith
      then show False
      proof cases
        case 1
        with best i'' have "potentialNewFill it (bs ! i') < potentialNewFill it (bs ! i)"
          unfolding isBestFit_def by auto
        moreover from all i nz have "potentialNewFill it (bs ! i) \<le> h'" by simp
        ultimately show False using i''(3) by simp
      next
        case 2
        with before i nz have "potentialNewFill it (bs ! i) < h'" by simp
        moreover from best i'' have "potentialNewFill it (bs ! i') \<le> potentialNewFill it (bs ! i)"
          unfolding isBestFit_def by auto
        ultimately show False using i''(3) by simp
      qed
    qed
    with i' show "bestFitBoxIndex it bs = Some i" by simp
  qed
qed

lemma copyBoxes_id [simp]: "copyBoxes bs = bs"
  by (simp add: copyBoxes_def)

lemma addUnits_spec:
  assumes "\<forall>b\<in>set bs. 0 < volume b \<and> 0 \<le> filledVolume b" and "0 \<le> getItemVolume it"
    and "addUnits it n bs a = (a', bs')"
  shows "length bs' = length bs \<and> map boxTypeOf bs' = map boxTypeOf bs \<and>
     a \<le> a' \<and> a' \<le> a + n \<and> placedUnits it bs (a' - a) bs' \<and>
     (a' < a + n \<longrightarrow> (\<forall>b\<in>set bs'. \<not> fitsNow it b))"
  using assms
proof (induction n arbitrary: bs a)
  case 0
  then show ?case by simp
next
  case (Suc n)
  show ?case
  proof (cases "bestFitBoxIndex it bs")
    case None
    with Suc.prems(3) have eq: "a' = a" "bs' = bs" by simp_all
    from None bestFitBoxIndex_None [OF Suc.prems(1,2)] have "\<forall>b\<in>set bs. \<not> fitsNow it b" by simp
    with eq show ?thesis by simp
  next
    case (Some i)
    let ?bs = "bs[i := addItem it (bs ! i)]"
    from Some bestFitBoxIndex_Some [OF Suc.prems(1,2)] have best: "isBestFit it bs i" by simp
    then have i: "i < length bs" by (simp add: isBestFit_def)
    from Some Suc.prems(3) have rec: "addUnits it n ?bs (Suc a) = (a', bs')" by simp
    have pos: "\<forall>b\<in>set ?bs. 0 < volume b \<and> 0 \<le> filledVolume b"
    proof
      fix b assume "b \<in> set ?bs"
      then have "b \<in> set bs \<or> b = addItem it (bs ! i)"
        using set_update_subset_insert [of bs i] by auto
      with Suc.prems(1,2) i show "0 < volume b \<and> 0 \<le> filledVolume b" by auto
    qed
    from Suc.IH [OF pos Suc.prems(2) rec]
    have len: "length bs' = length bs" and ty: "map boxTypeOf bs' = map boxTypeOf ?bs"
      and a: "Suc a \<le> a'" "a' \<le> Suc a + n"
      and pl: "placedUnits it ?bs (a' - Suc a) bs'"
      and stop: "a' < Suc a + n \<longrightarrow> (\<forall>b\<in>set bs'. \<not> fitsNow it b)"
      by simp_all
    from a have "a' - a = Suc (a' - Suc a)" by simp
    with pl best i have "placedUnits it bs (a' - a) bs'" by auto
    moreover have "map boxTypeOf ?bs = map boxTypeOf bs"
    proof -
      have "map boxTypeOf ?bs = (map boxTypeOf bs)[i := map boxTypeOf bs ! i]"
        using i by (simp add: map_update)
      then show ?thesis by (simp only: list_update_id)
    qed
    ultimately show ?thesis using len ty a stop by simp
  qed
qed

lemma addUnits_ok:
  assumes "\<forall>b\<in>set bs. packedOK b" and "addUnits it n bs a = (a', bs')"
  shows "\<forall>b\<in>set bs'. packedOK b"
  using assms
proof (induction n arbitrary: bs a)
  case 0
  then show ?case by simp
next
  case (Suc n)
  show ?case
  proof (cases "bestFitBoxIndex it bs")
    case None
    with Suc.prems show ?thesis by simp
  next
    case (Some i)
    let ?bs = "bs[i := addItem it (bs ! i)]"
    from bestFitBoxIndex_fits [OF Some] have i: "i < length bs"
      and fit: "doesItemFit it (bs ! i) (filledVolume (bs ! i)) (totalWeight (bs ! i))"
      by simp_all
    from Some Suc.prems(2) have rec: "addUnits it n ?bs (Suc a) = (a', bs')" by simp
    from i Suc.prems(1) have "packedOK (bs ! i)" by simp
    from addItem_ok [OF this fit] Suc.prems(1) have "\<forall>b\<in>set ?bs. packedOK b"
      by (auto dest!: set_update_subset_insert [THEN subsetD])
    from Suc.IH [OF this rec] show ?thesis .
  qed
qed

subsection \<open>Claims C8, C10 and C1\<close>

lemmas example_defs = book_def mug_def laptop_def keyboard_def AMAZON_BOX_SIZES_def

lemma sortBoxesAsc_AMAZON: "sortBoxesAsc AMAZON_BOX_SIZES = AMAZON_BOX_SIZES"
  by (simp add: sortBoxesAsc_def AMAZON_BOX_SIZES_def)

lemma pack_book_mug:
  "packOptimal [book, mug] AMAZON_BOX_SIZES = [openBox (AMAZON_BOX_SIZES ! 0) [book, mug] 2880 (6 / 5)]"
  by code_simp

text \<open>
  Claim C8. For an item with positive dimensions and a box type whose declared volume is at
  least length \<times> width \<times> height, the test used to open a new box in Phase 2
  (\<^const>\<open>newBoxFits\<close>) and the test used to find the smallest box of a single item in the
  baseline carbon (\<^const>\<open>suitableBoxFits\<close>) both give the answer of \<^const>\<open>doesItemFit\<close>
  at filled volume 0 and total weight 0.
\<close>

theorem fit_checks_agree:
  assumes "validItem it" and "volumeCoversDims b"
  shows "newBoxFits it b = doesItemFit it b 0 0 \<and> suitableBoxFits it b = doesItemFit it b 0 0"
  using newBoxFits_eq [OF assms(1), of b] suitableBoxFits_eq [OF assms(1), of b] assms(2)
  by (simp add: volumeCoversDims_def)

theorem fit_checks_agree_witness:
  "validItem keyboard \<and> volumeCoversDims (AMAZON_BOX_SIZES ! 2) \<and>
   newBoxFits keyboard (AMAZON_BOX_SIZES ! 2) = doesItemFit keyboard (AMAZON_BOX_SIZES ! 2) 0 0 \<and>
   suitableBoxFits keyboard (AMAZON_BOX_SIZES ! 2) = doesItemFit keyboard (AMAZON_BOX_SIZES ! 2) 0 0 \<and>
   doesItemFit keyboard (AMAZON_BOX_SIZES ! 2) 0 0"
proof -
  have v: "validItem keyboard" by (simp add: validItem_def keyboard_def)
  have c: "volumeCoversDims (AMAZON_BOX_SIZES ! 2)"
    by (simp add: volumeCoversDims_def AMAZON_BOX_SIZES_def)
  have "doesItemFit keyboard (AMAZON_BOX_SIZES ! 2) 0 0"
    by (simp add: doesItemFit_def getItemVolume_def example_defs)
  with fit_checks_agree [OF v c] v c show ?thesis by simp
qed



text \<open>
  Claim C1. When every box type of the catalog has a declared volume of at least
  length \<times> width \<times> height and every item has positive dimensions and weight, each
  packed box returned by \<^const>\<open>packOptimal\<close> has a filled volume equal to the sum of its
  items' volumes, a total weight equal to the sum of their weights, and both within the
  limits of its box type (\<^const>\<open>packedOK\<close>); and \<^const>\<open>tryAddItemsToExistingBoxes\<close>
  returns such boxes whenever it is given such boxes.
\<close>

theorem packed_containers_consistent:
  assumes "\<forall>b\<in>set boxTypes. volumeCoversDims b" and "\<forall>it\<in>set its. validItem it"
  shows "(\<forall>pb\<in>set (packOptimal its boxTypes). packedOK pb) \<and>
         (\<forall>existing itemTypeToAdd n. (\<forall>pb\<in>set existing. packedOK pb) \<longrightarrow>
            (\<forall>pb\<in>set (newPackedBoxes (tryAddItemsToExistingBoxes itemTypeToAdd n existing)).
               packedOK pb))"
proof (intro conjI allI impI)
  show "\<forall>pb\<in>set (packOptimal its boxTypes). packedOK pb"
    using assms by (intro packOptimal_ok) (simp_all add: volumeCoversDims_def)
next
  fix existing itemTypeToAdd n
  assume ok: "\<forall>pb\<in>set existing. packedOK pb"
  obtain a' bs' where r: "addUnits itemTypeToAdd n existing 0 = (a', bs')"
    by (cases "addUnits itemTypeToAdd n existing 0")
  from addUnits_ok [OF ok r] r
  show "\<forall>pb\<in>set (newPackedBoxes (tryAddItemsToExistingBoxes itemTypeToAdd n existing)). packedOK pb"
    by (simp add: tryAddItemsToExistingBoxes_def)
qed

lemma try_mug_on_book_mug:
  "tryAddItemsToExistingBoxes mug 5 (packOptimal [book, mug] AMAZON_BOX_SIZES) =
     \<lparr>quantityAdded = 2,
      newPackedBoxes = [openBox (AMAZON_BOX_SIZES ! 0) [book, mug, mug, mug] 5040 2],
      success = True\<rparr>"
  by code_simp

theorem packed_containers_consistent_witness:
  "list_all volumeCoversDims AMAZON_BOX_SIZES \<and> list_all validItem [book, mug] \<and>
   list_all packedOK (packOptimal [book, mug] AMAZON_BOX_SIZES) \<and>
   list_all packedOK
     (newPackedBoxes (tryAddItemsToExistingBoxes mug 5 (packOptimal [book, mug] AMAZON_BOX_SIZES))) \<and>
   packOptimal [book, mug] AMAZON_BOX_SIZES \<noteq> []"
proof -
  have c: "\<forall>b\<in>set AMAZON_BOX_SIZES. volumeCoversDims b"
    by (simp add: volumeCoversDims_def AMAZON_BOX_SIZES_def)
  have v: "\<forall>it\<in>set [book, mug]. validItem it" by (simp add: validItem_def example_defs)
  have ne: "packOptimal [book, mug] AMAZON_BOX_SIZES \<noteq> []" by (simp add: pack_book_mug)
  from packed_containers_consistent [OF c v]
  have 1: "\<forall>pb\<in>set (packOptimal [book, mug] AMAZON_BOX_SIZES). packedOK pb"
    and 2: "\<And>existing itemTypeToAdd n. \<forall>pb\<in>set existing. packedOK pb \<Longrightarrow>
            \<forall>pb\<in>set (newPackedBoxes (tryAddItemsToExistingBoxes itemTypeToAdd n existing)).
               packedOK pb"
    by blast+
  from 2 [OF 1, of mug 5] 1 c v ne show ?thesis
    unfolding list_all_iff by blast
qed

subsection \<open>Claim C4: the consolidation simulator\<close>



subsection \<open>Claim C2: the single box of Phase 1\<close>

lemma singleBox_None: "(singleBox bs its = None) = (\<forall>b\<in>set bs. allItemsFit its b 0 0 = None)"
proof (induction bs)
  case Nil
  then show ?case by simp
next
  case (Cons b bs)
  then show ?case by (cases "allItemsFit its b 0 0") auto
qed

lemma singleBox_first:
  assumes "singleBox bs its = Some pb"
  shows "\<exists>pre b post fv tw. bs = pre @ b # post \<and> (\<forall>x\<in>set pre. allItemsFit its x 0 0 = None) \<and>
     allItemsFit its b 0 0 = Some (fv, tw) \<and> pb = openBox b its fv tw"
  using assms
proof (induction bs)
  case Nil
  then show ?case by simp
next
  case (Cons b bs)
  show ?case
  proof (cases "allItemsFit its b 0 0")
    case None
    with Cons.prems have "singleBox bs its = Some pb" by simp
    from Cons.IH [OF this] obtain pre c post fv tw where
      *: "bs = pre @ c # post" "\<forall>x\<in>set pre. allItemsFit its x 0 0 = None"
         "allItemsFit its c 0 0 = Some (fv, tw)" "pb = openBox c its fv tw"
      by blast
    from * None have "b # bs = (b # pre) @ c # post \<and> (\<forall>x\<in>set (b # pre). allItemsFit its x 0 0 = None)"
      by simp
    with *(3,4) show ?thesis by blast
  next
    case (Some r)
    obtain fv tw where r: "r = (fv, tw)" by (cases r)
    with Some Cons.prems have "pb = openBox b its fv tw" by simp
    with Some r have "b # bs = [] @ b # bs \<and> (\<forall>x\<in>set []. allItemsFit its x 0 0 = None) \<and>
        allItemsFit its b 0 0 = Some (fv, tw) \<and> pb = openBox b its fv tw"
      by simp
    then show ?thesis by blast
  qed
qed

lemma fitsTogether_iff:
  assumes "\<forall>it\<in>set its. validItem it" "its \<noteq> []"
  shows "fitsTogether its b = (allItemsFit (sortItemsDesc its) b 0 0 \<noteq> None)"
proof -
  let ?s = "sortItemsDesc its"
  have v: "\<forall>it\<in>set ?s. validItem it" using assms(1) by simp
  have ne: "?s \<noteq> []" using assms(2) set_sortItemsDesc [of its] by (metis set_empty)
  have sums: "sum_list (map f ?s) = sum_list (map f its)" for f :: "item \<Rightarrow> rat"
    using mset_sortItemsDesc [of its] by (metis mset_map sum_mset_sum_list)
  from allItemsFit_iff [OF v, of b 0 0] ne show ?thesis
    by (simp add: fitsTogether_def sums list_all_iff)
qed



subsection \<open>Claim C5: packaging efficiency\<close>

lemma fillBox_type: "boxTypeOf (fst (fillBox tb its)) = boxTypeOf tb"
proof (induction its arbitrary: tb)
  case Nil
  then show ?case by simp
next
  case (Cons it its)
  show ?case
  proof (cases "doesItemFit it tb (filledVolume tb) (totalWeight tb)")
    case True
    then show ?thesis using Cons.IH [of "addItem it tb"] by simp
  next
    case False
    then show ?thesis using Cons.IH [of tb] by (simp add: case_prod_beta)
  qed
qed

lemma fillBox_mset:
  "mset (items (fst (fillBox tb its))) + mset (snd (fillBox tb its)) = mset (items tb) + mset its"
proof (induction its arbitrary: tb)
  case Nil
  then show ?case by simp
next
  case (Cons it its)
  show ?case
  proof (cases "doesItemFit it tb (filledVolume tb) (totalWeight tb)")
    case True
    then show ?thesis using Cons.IH [of "addItem it tb"] by simp
  next
    case False
    then show ?thesis using Cons.IH [of tb] by (simp add: case_prod_beta)
  qed
qed

lemma fillBox_items: "set (items (fst (fillBox tb its))) \<subseteq> set (items tb) \<union> set its"
proof
  fix x assume "x \<in> set (items (fst (fillBox tb its)))"
  then have "x \<in># mset (items (fst (fillBox tb its))) + mset (snd (fillBox tb its))" by simp
  then have "x \<in># mset (items tb) + mset its" by (simp only: fillBox_mset)
  then show "x \<in> set (items tb) \<union> set its" by simp
qed

lemma packLoop_types:
  assumes "\<forall>pb\<in>set pbs. boxTypeOf pb \<in> set sb \<and> set (items pb) \<subseteq> S" and "set its \<subseteq> S"
  shows "\<forall>pb\<in>set (fst (packLoop sb pbs its w)). boxTypeOf pb \<in> set sb \<and> set (items pb) \<subseteq> S"
proof -
  let ?Inv = "\<lambda>pbs its (w :: string list).
      (\<forall>pb\<in>set pbs. boxTypeOf pb \<in> set sb \<and> set (items pb) \<subseteq> S) \<and> set its \<subseteq> S"
  have "?Inv (fst (packLoop sb pbs its w)) [] (snd (packLoop sb pbs its w))"
  proof (rule packLoop_invariant [where Inv = ?Inv])
    show "?Inv pbs its w" using assms by simp
  next
    fix pbs cur rest w i
    assume inv: "?Inv pbs (cur # rest) w" and best: "bestFitBoxIndex cur pbs = Some i"
    let ?r = "fillBox (addItem cur (pbs ! i)) rest"
    from bestFitBoxIndex_fits [OF best] have i: "i < length pbs" by simp
    with inv have old: "boxTypeOf (pbs ! i) \<in> set sb \<and> set (items (pbs ! i)) \<subseteq> S" by simp
    have "boxTypeOf (fst ?r) \<in> set sb" using old by (simp add: fillBox_type)
    moreover have "set (items (fst ?r)) \<subseteq> S"
      using fillBox_items [of "addItem cur (pbs ! i)" rest] old inv by auto
    ultimately have "\<forall>pb\<in>set (pbs[i := fst ?r]). boxTypeOf pb \<in> set sb \<and> set (items pb) \<subseteq> S"
      using inv by (auto dest!: set_update_subset_insert [THEN subsetD])
    moreover have "set (snd ?r) \<subseteq> S"
      using fillBox_pending [of "addItem cur (pbs ! i)" rest] inv by auto
    ultimately show "?Inv (pbs[i := fst ?r]) (snd ?r) w" by simp
  next
    fix pbs cur rest w nb
    assume inv: "?Inv pbs (cur # rest) w" and found: "find (newBoxFits cur) sb = Some nb"
    let ?fresh = "openBox nb [cur] (getItemVolume cur) (weight cur)"
    let ?r = "fillBox ?fresh rest"
    from found have nb: "nb \<in> set sb" by (auto simp: find_Some_iff)
    have "boxTypeOf (fst ?r) \<in> set sb" using nb by (simp add: fillBox_type)
    moreover have "set (items (fst ?r)) \<subseteq> S"
      using fillBox_items [of ?fresh rest] inv by auto
    moreover have "set (snd ?r) \<subseteq> S"
      using fillBox_pending [of ?fresh rest] inv by auto
    ultimately show "?Inv (pbs @ [fst ?r]) (snd ?r) w" using inv by simp
  next
    fix pbs cur rest w
    assume "?Inv pbs (cur # rest) w"
    then show "?Inv pbs rest (w @ [unpackableWarning cur])" by simp
  qed
  then show ?thesis by simp
qed

lemma packOptimal_types:
  "\<forall>pb\<in>set (packOptimal its boxTypes). boxTypeOf pb \<in> set boxTypes \<and> set (items pb) \<subseteq> set its"
proof (cases "its = []")
  case True
  then show ?thesis by (simp add: packOptimal_def packOptimalLog_def)
next
  case False
  show ?thesis
  proof (cases "singleBox (sortBoxesAsc boxTypes) (sortItemsDesc its)")
    case (Some pb)
    from singleBox_Some [OF Some] Some False show ?thesis
      by (auto simp: packOptimal_def packOptimalLog_def)
  next
    case None
    have "\<forall>pb\<in>set (fst (packLoop (sortBoxesAsc boxTypes) [] (sortItemsDesc its) [])).
        boxTypeOf pb \<in> set (sortBoxesAsc boxTypes) \<and> set (items pb) \<subseteq> set its"
      by (intro packLoop_types) simp_all
    with None False show ?thesis
      by (simp add: packOptimal_def packOptimalLog_def)
  qed
qed

lemma boxTypeOf_volume [simp]: "volume (boxTypeOf pb) = volume pb"
  by (simp add: boxTypeOf_def)

lemma foldl_add_sum_list:
  "foldl (\<lambda>acc b. acc + f b) a xs = a + sum_list (map f xs)" for a :: rat
  by (induction xs arbitrary: a) (simp_all add: add.assoc)

lemma efficiency_sum:
  "packagingEfficiencyScore (calculateMetrics pbs flat) =
     (if sum_list (map volume pbs) > 0
      then sum_list (map filledVolume pbs) / sum_list (map volume pbs) * 100 else 0)"
  by (simp add: calculateMetrics_def Let_def foldl_add_sum_list)

text \<open>
  Claim C5. When every box type of the catalog has a positive declared volume of at least
  length \<times> width \<times> height and every item has positive dimensions and weight, the
  packaging efficiency that \<^const>\<open>calculateMetrics\<close> reports for the result of
  \<^const>\<open>packOptimal\<close> is the total filled volume divided by the total box volume, times
  100, and 0 when there is no box; it lies between 0 and 100.
\<close>

theorem efficiency_is_ratio_in_range:
  assumes "\<forall>b\<in>set boxTypes. volumeCoversDims b \<and> 0 < volume b"
    and "\<forall>it\<in>set its. validItem it"
  shows "packagingEfficiencyScore (calculateMetrics (packOptimal its boxTypes) flat) =
           (if packOptimal its boxTypes = [] then 0
            else sum_list (map filledVolume (packOptimal its boxTypes)) /
                 sum_list (map volume (packOptimal its boxTypes)) * 100) \<and>
         0 \<le> packagingEfficiencyScore (calculateMetrics (packOptimal its boxTypes) flat) \<and>
         packagingEfficiencyScore (calculateMetrics (packOptimal its boxTypes) flat) \<le> 100"
proof -
  let ?pbs = "packOptimal its boxTypes"
  let ?F = "sum_list (map filledVolume ?pbs)" and ?V = "sum_list (map volume ?pbs)"
  have ok: "\<forall>pb\<in>set ?pbs. packedOK pb"
    using assms by (intro packOptimal_ok) (simp_all add: volumeCoversDims_def)
  have each: "0 < volume pb \<and> 0 \<le> filledVolume pb \<and> filledVolume pb \<le> volume pb"
    if pb: "pb \<in> set ?pbs" for pb
  proof -
    from packOptimal_types pb have t: "boxTypeOf pb \<in> set boxTypes" and i: "set (items pb) \<subseteq> set its"
      by blast+
    from t assms(1) have "0 < volume (boxTypeOf pb)" by blast
    moreover have "0 \<le> sum_list (map getItemVolume (items pb))"
      using i assms(2) by (intro sum_list_nonneg) (auto dest: validItem_volume_pos intro: less_imp_le)
    moreover from ok pb have "packedOK pb" by blast
    ultimately show ?thesis by (simp add: packedOK_def)
  qed
  have FV: "?F \<le> ?V" using each by (intro sum_list_mono) simp
  have F0: "0 \<le> ?F" using each by (intro sum_list_nonneg) auto
  have Vpos: "0 < ?V" if "?pbs \<noteq> []"
  proof -
    from that obtain pb rest where c: "?pbs = pb # rest" by (cases ?pbs) auto
    then have "0 < volume pb" using each [of pb] by simp
    moreover have "0 \<le> sum_list (map volume rest)"
      using each c by (intro sum_list_nonneg) (auto intro: less_imp_le)
    ultimately show ?thesis using c by simp
  qed
  show ?thesis
  proof (cases "?pbs = []")
    case True
    then show ?thesis by (simp add: efficiency_sum)
  next
    case False
    from Vpos [OF False] FV F0 have "0 \<le> ?F / ?V * 100" "?F / ?V * 100 \<le> 100"
      by (simp_all add: divide_le_eq)
    with False Vpos [OF False] show ?thesis by (simp add: efficiency_sum)
  qed
qed

theorem efficiency_is_ratio_in_range_witness:
  "list_all (\<lambda>b. volumeCoversDims b \<and> 0 < volume b) AMAZON_BOX_SIZES \<and>
   list_all validItem [book, mug] \<and>
   packagingEfficiencyScore (calculateMetrics (packOptimal [book, mug] AMAZON_BOX_SIZES) [book, mug]) = 48 \<and>
   packagingEfficiencyScore (calculateMetrics (packOptimal [book, mug] AMAZON_BOX_SIZES) [book, mug]) \<le> 100"
proof -
  have c: "\<forall>b\<in>set AMAZON_BOX_SIZES. volumeCoversDims b \<and> 0 < volume b"
    by (simp add: volumeCoversDims_def AMAZON_BOX_SIZES_def)
  have v: "\<forall>it\<in>set [book, mug]. validItem it" by (simp add: validItem_def example_defs)
  have e: "packagingEfficiencyScore (calculateMetrics (packOptimal [book, mug] AMAZON_BOX_SIZES) [book, mug]) = 48"
    unfolding pack_book_mug efficiency_sum by (simp add: AMAZON_BOX_SIZES_def)
  from efficiency_is_ratio_in_range [OF c v, of "[book, mug]"]
  have le: "packagingEfficiencyScore (calculateMetrics (packOptimal [book, mug] AMAZON_BOX_SIZES) [book, mug]) \<le> 100"
    by (elim conjE)
  from c v have "list_all (\<lambda>b. volumeCoversDims b \<and> 0 < volume b) AMAZON_BOX_SIZES"
    "list_all validItem [book, mug]"
    unfolding list_all_iff by blast+
  with e le show ?thesis by (intro conjI)
qed

subsection \<open>Claim C7: carbon saved by consolidation\<close>

lemma arg_min_list_sorted:
  "sorted (map f xs) \<Longrightarrow> xs \<noteq> [] \<Longrightarrow> arg_min_list f xs = hd xs"
  for f :: "'a \<Rightarrow> rat"
proof (induction xs rule: induct_list012)
  case 1
  then show ?case by simp
next
  case (2 x)
  then show ?case by simp
next
  case (3 x y zs)
  from "3.prems" have "sorted (map f (y # zs))" by simp
  with "3.IH" have m: "arg_min_list f (y # zs) = y" by simp
  from "3.prems" have "f x \<le> f y" by simp
  with m show ?case by (simp add: Let_def)
qed

lemma find_filter: "find P xs = (case filter P xs of [] \<Rightarrow> None | x # _ \<Rightarrow> Some x)"
  by (induction xs) auto

lemma find_sorted_smallest:
  assumes "sorted (map volume xs)"
  shows "find P xs = (case filter P xs of [] \<Rightarrow> None | b # bs \<Rightarrow> Some (arg_min_list volume (b # bs)))"
proof (cases "filter P xs")
  case Nil
  then show ?thesis by (simp add: find_filter)
next
  case (Cons b bs)
  have "sorted (map volume (filter P xs))" using assms by (rule sorted_filter)
  with Cons have "arg_min_list volume (b # bs) = b"
    using arg_min_list_sorted [of volume "b # bs"] by simp
  with Cons show ?thesis by (simp add: find_filter)
qed

lemma AMAZON_volumes: "\<forall>b\<in>set AMAZON_BOX_SIZES. box_length b * box_width b * box_height b \<le> volume b"
  by (simp add: AMAZON_BOX_SIZES_def)

lemma suitable_is_smallestHolding:
  assumes "validItem it"
  shows "find (suitableBoxFits it) (sortBoxesAsc AMAZON_BOX_SIZES) = smallestHolding it"
proof -
  have "filter (suitableBoxFits it) AMAZON_BOX_SIZES = filter (\<lambda>b. doesItemFit it b 0 0) AMAZON_BOX_SIZES"
    using suitableBoxFits_eq [OF assms] AMAZON_volumes by (intro filter_cong) auto
  moreover have "sorted (map volume AMAZON_BOX_SIZES)" by (simp add: AMAZON_BOX_SIZES_def)
  ultimately show ?thesis
    by (simp add: sortBoxesAsc_AMAZON smallestHolding_def find_sorted_smallest)
qed

lemma foldl_individualStep:
  assumes "\<forall>it\<in>set flat. validItem it"
  shows "foldl individualStep a flat = a + baselineCarbon flat"
  using assms
proof (induction flat arbitrary: a)
  case Nil
  then show ?case by (simp add: baselineCarbon_def)
next
  case (Cons it flat)
  from Cons.prems have v: "validItem it" by simp
  have step: "individualStep a it =
      a + (case smallestHolding it of None \<Rightarrow> 0 | Some b \<Rightarrow> baseCO2 b + weight it * perKgCO2 b)"
    by (simp add: individualStep_def suitable_is_smallestHolding [OF v] split: option.splits)
  from Cons.prems have "foldl individualStep (individualStep a it) flat =
      individualStep a it + baselineCarbon flat"
    by (intro Cons.IH) simp
  then show ?case by (simp add: step baselineCarbon_def add.assoc)
qed

lemma foldl_impact:
  "foldl (\<lambda>acc b. acc + baseCO2 b + (totalWeight b * perKgCO2 b)) a pbs = a + carbonImpact pbs"
  by (induction pbs arbitrary: a) (simp_all add: carbonImpact_def add.assoc)

lemma crate_example:
  "co2SavedByConsolidation (calculateMetrics (packOptimal [mug] [crate]) [mug]) = - (2613 / 500)"
  by code_simp

text \<open>
  Claim C7. For items with positive dimensions and weights, the carbon saved by
  consolidation that \<^const>\<open>calculateMetrics\<close> reports is the baseline carbon (for each
  item, the fixed plus per-kilogram cost of the smallest box type of \<open>AMAZON_BOX_SIZES\<close>
  that holds the item alone, and nothing for an item that no type holds) minus the carbon
  impact of the packed boxes, as it is, without clamping; and it is negative for some
  list of such items packed by \<^const>\<open>packOptimal\<close> with some catalog.
\<close>

theorem carbon_saved_unclamped:
  assumes "\<forall>it\<in>set flat. validItem it"
  shows "co2SavedByConsolidation (calculateMetrics pbs flat) = baselineCarbon flat - carbonImpact pbs \<and>
         optimalCO2Impact (calculateMetrics pbs flat) = carbonImpact pbs \<and>
         (\<exists>flat' boxTypes'. list_all validItem flat' \<and> list_all volumeCoversDims boxTypes' \<and>
            co2SavedByConsolidation (calculateMetrics (packOptimal flat' boxTypes') flat') < 0)"
proof -
  have "list_all validItem [mug]" by (simp add: validItem_def mug_def)
  moreover have "list_all volumeCoversDims [crate]" by (simp add: volumeCoversDims_def crate_def)
  moreover have "co2SavedByConsolidation (calculateMetrics (packOptimal [mug] [crate]) [mug]) < 0"
    by (simp add: crate_example)
  ultimately have "\<exists>flat' boxTypes'. list_all validItem flat' \<and> list_all volumeCoversDims boxTypes' \<and>
      co2SavedByConsolidation (calculateMetrics (packOptimal flat' boxTypes') flat') < 0"
    by blast
  then show ?thesis
    by (simp add: calculateMetrics_def Let_def foldl_individualStep [OF assms] foldl_impact)
qed

theorem carbon_saved_unclamped_witness:
  "list_all validItem [mug] \<and>
   baselineCarbon [mug] = 87 / 500 \<and> carbonImpact (packOptimal [mug] [crate]) = 27 / 5 \<and>
   co2SavedByConsolidation (calculateMetrics (packOptimal [mug] [crate]) [mug]) = 87 / 500 - 27 / 5"
proof -
  have v: "\<forall>it\<in>set [mug]. validItem it" by (simp add: validItem_def mug_def)
  have b: "baselineCarbon [mug] = 87 / 500" by code_simp
  have i: "carbonImpact (packOptimal [mug] [crate]) = 27 / 5" by code_simp
  from carbon_saved_unclamped [OF v, of "packOptimal [mug] [crate]"]
  have "co2SavedByConsolidation (calculateMetrics (packOptimal [mug] [crate]) [mug]) =
      baselineCarbon [mug] - carbonImpact (packOptimal [mug] [crate])"
    by (elim conjE)
  with v b i show ?thesis by (simp add: list_all_iff)
qed

subsection \<open>Claim C3: unpackable items\<close>

lemma holdsAlone_newBoxFits: "holdsAlone it b = newBoxFits it b"
  by (simp add: holdsAlone_def newBoxFits_def axesFit_def)

lemma unpackable_find: "unpackable sb it = (find (newBoxFits it) sb = None)"
  by (auto simp: unpackable_def list_all_iff find_None_iff holdsAlone_newBoxFits)

lemma unpackable_set: "set sb = set bts \<Longrightarrow> unpackable sb it = unpackable bts it"
  by (simp add: unpackable_def list_all_iff)

lemma fits_not_unpackable:
  assumes "doesItemFit it pb fv tw" and "0 \<le> tw" and "boxTypeOf pb \<in> set sb"
  shows "\<not> unpackable sb it"
proof -
  from assms(1,2) have "holdsAlone it (boxTypeOf pb)"
    by (simp add: doesItemFit_def holdsAlone_def axesFit_def boxTypeOf_def)
  with assms(3) show ?thesis by (auto simp: unpackable_def list_all_iff)
qed

lemma fillBox_keeps_unpackable:
  assumes "0 \<le> totalWeight tb" and "\<forall>x\<in>set its. 0 \<le> weight x" and "boxTypeOf tb \<in> set sb"
  shows "filter (unpackable sb) (snd (fillBox tb its)) = filter (unpackable sb) its \<and>
         0 \<le> totalWeight (fst (fillBox tb its))"
  using assms
proof (induction its arbitrary: tb)
  case Nil
  then show ?case by simp
next
  case (Cons it its)
  show ?case
  proof (cases "doesItemFit it tb (filledVolume tb) (totalWeight tb)")
    case True
    from fits_not_unpackable [OF True Cons.prems(1,3)] have nu: "\<not> unpackable sb it" .
    from Cons.prems have "0 \<le> totalWeight (addItem it tb)" "\<forall>x\<in>set its. 0 \<le> weight x"
      "boxTypeOf (addItem it tb) \<in> set sb"
      by simp_all
    from Cons.IH [OF this] True nu show ?thesis by simp
  next
    case False
    from Cons.prems have "\<forall>x\<in>set its. 0 \<le> weight x" by simp
    from Cons.IH [OF Cons.prems(1) this Cons.prems(3)] False show ?thesis
      by (simp add: case_prod_beta)
  qed
qed

lemma fillBox_packable_mset:
  assumes "0 \<le> totalWeight tb" and "\<forall>x\<in>set its. 0 \<le> weight x" and "boxTypeOf tb \<in> set sb"
  shows "mset (items (fst (fillBox tb its))) + mset (filter (\<lambda>x. \<not> unpackable sb x) (snd (fillBox tb its))) =
         mset (items tb) + mset (filter (\<lambda>x. \<not> unpackable sb x) its)"
  using assms
proof (induction its arbitrary: tb)
  case Nil
  then show ?case by simp
next
  case (Cons it its)
  show ?case
  proof (cases "doesItemFit it tb (filledVolume tb) (totalWeight tb)")
    case True
    from fits_not_unpackable [OF True Cons.prems(1,3)] have nu: "\<not> unpackable sb it" .
    from Cons.prems have "0 \<le> totalWeight (addItem it tb)" "\<forall>x\<in>set its. 0 \<le> weight x"
      "boxTypeOf (addItem it tb) \<in> set sb"
      by simp_all
    from Cons.IH [OF this] True nu show ?thesis by simp
  next
    case False
    from Cons.prems have "\<forall>x\<in>set its. 0 \<le> weight x" by simp
    from Cons.IH [OF Cons.prems(1) this Cons.prems(3)] False show ?thesis
      by (simp add: case_prod_beta)
  qed
qed

lemma sum_list_update_add:
  "i < length xs \<Longrightarrow> sum_list (xs[i := y]) + xs ! i = sum_list xs + y"
  for y :: "'a :: comm_monoid_add"
proof (induction xs arbitrary: i)
  case Nil
  then show ?case by simp
next
  case (Cons x xs)
  show ?case
  proof (cases i)
    case 0
    then show ?thesis by (simp add: ac_simps)
  next
    case (Suc j)
    with Cons.prems have "j < length xs" by simp
    from Cons.IH [OF this] Suc show ?thesis by (simp add: add.assoc)
  qed
qed

lemma packedItems_mset: "mset (packedItems pbs) = sum_list (map (\<lambda>pb. mset (items pb)) pbs)"
  by (induction pbs) (simp_all add: packedItems_def)

lemma packedItems_update:
  assumes "i < length pbs"
  shows "mset (packedItems (pbs[i := tb])) + mset (items (pbs ! i)) =
         mset (packedItems pbs) + mset (items tb)"
  using sum_list_update_add [of i "map (\<lambda>pb. mset (items pb)) pbs" "mset (items tb)"] assms
  by (simp add: packedItems_mset map_update)

lemma packLoop_accounts:
  assumes types: "\<forall>pb\<in>set pbs. boxTypeOf pb \<in> set sb \<and> 0 \<le> totalWeight pb"
    and weights: "\<forall>x\<in>set its. 0 \<le> weight x"
  shows "mset (packedItems (fst (packLoop sb pbs its w))) =
           mset (packedItems pbs) + mset (filter (\<lambda>x. \<not> unpackable sb x) its) \<and>
         snd (packLoop sb pbs its w) = w @ map unpackableWarning (filter (unpackable sb) its)"
proof -
  let ?U = "unpackable sb"
  let ?N = "\<lambda>x. \<not> unpackable sb x"
  define M where "M = mset (packedItems pbs) + mset (filter ?N its)"
  define W where "W = w @ map unpackableWarning (filter ?U its)"
  let ?Inv = "\<lambda>pbs its w.
      (\<forall>pb\<in>set pbs. boxTypeOf pb \<in> set sb \<and> 0 \<le> totalWeight pb) \<and>
      (\<forall>x\<in>set its. 0 \<le> weight x) \<and>
      mset (packedItems pbs) + mset (filter ?N its) = M \<and>
      w @ map unpackableWarning (filter ?U its) = W"
  have "?Inv (fst (packLoop sb pbs its w)) [] (snd (packLoop sb pbs its w))"
  proof (rule packLoop_invariant [where Inv = ?Inv])
    show "?Inv pbs its w" using assms by (simp add: M_def W_def)
  next
    fix pbs cur rest w i
    assume inv: "?Inv pbs (cur # rest) w" and best: "bestFitBoxIndex cur pbs = Some i"
    let ?tb = "addItem cur (pbs ! i)"
    let ?r = "fillBox ?tb rest"
    from bestFitBoxIndex_fits [OF best] have i: "i < length pbs"
      and fit: "doesItemFit cur (pbs ! i) (filledVolume (pbs ! i)) (totalWeight (pbs ! i))"
      by simp_all
    from i inv have old: "boxTypeOf (pbs ! i) \<in> set sb" "0 \<le> totalWeight (pbs ! i)" by simp_all
    from fits_not_unpackable [OF fit old(2,1)] have nu: "\<not> ?U cur" .
    from inv have wc: "0 \<le> weight cur" and wr: "\<forall>x\<in>set rest. 0 \<le> weight x" by simp_all
    have tb: "0 \<le> totalWeight ?tb" "boxTypeOf ?tb \<in> set sb" using old wc by simp_all
    note keep = fillBox_keeps_unpackable [OF tb(1) wr tb(2)]
    note acc = fillBox_packable_mset [OF tb(1) wr tb(2)]
    have 1: "\<forall>pb\<in>set (pbs[i := fst ?r]). boxTypeOf pb \<in> set sb \<and> 0 \<le> totalWeight pb"
      using inv keep tb(2) by (auto simp: fillBox_type dest!: set_update_subset_insert [THEN subsetD])
    have 2: "\<forall>x\<in>set (snd ?r). 0 \<le> weight x"
      using fillBox_pending [of ?tb rest] wr by auto
    have "mset (packedItems (pbs[i := fst ?r])) + mset (filter ?N (snd ?r)) + mset (items (pbs ! i)) =
        mset (packedItems pbs) + (mset (items (fst ?r)) + mset (filter ?N (snd ?r)))"
      using packedItems_update [OF i, of "fst ?r"] by (simp add: ac_simps)
    also have "\<dots> = mset (packedItems pbs) + (mset (items ?tb) + mset (filter ?N rest))"
      by (simp only: acc)
    also have "\<dots> = mset (packedItems pbs) + mset (filter ?N (cur # rest)) + mset (items (pbs ! i))"
      using nu by simp
    finally have 3: "mset (packedItems (pbs[i := fst ?r])) + mset (filter ?N (snd ?r)) = M"
      using inv by simp
    have 4: "w @ map unpackableWarning (filter ?U (snd ?r)) = W"
      using keep inv nu by simp
    from 1 2 3 4 show "?Inv (pbs[i := fst ?r]) (snd ?r) w" by blast
  next
    fix pbs cur rest w nb
    assume inv: "?Inv pbs (cur # rest) w" and found: "find (newBoxFits cur) sb = Some nb"
    let ?tb = "openBox nb [cur] (getItemVolume cur) (weight cur)"
    let ?r = "fillBox ?tb rest"
    from found have nb: "nb \<in> set sb" by (auto simp: find_Some_iff)
    from found have nu: "\<not> ?U cur" by (simp add: unpackable_find)
    from inv have wc: "0 \<le> weight cur" and wr: "\<forall>x\<in>set rest. 0 \<le> weight x" by simp_all
    have tb: "0 \<le> totalWeight ?tb" "boxTypeOf ?tb \<in> set sb" using nb wc by simp_all
    note keep = fillBox_keeps_unpackable [OF tb(1) wr tb(2)]
    note acc = fillBox_packable_mset [OF tb(1) wr tb(2)]
    have 1: "\<forall>pb\<in>set (pbs @ [fst ?r]). boxTypeOf pb \<in> set sb \<and> 0 \<le> totalWeight pb"
      using inv keep tb(2) by (auto simp: fillBox_type)
    have 2: "\<forall>x\<in>set (snd ?r). 0 \<le> weight x"
      using fillBox_pending [of ?tb rest] wr by auto
    have "mset (packedItems (pbs @ [fst ?r])) + mset (filter ?N (snd ?r)) =
        mset (packedItems pbs) + (mset (items (fst ?r)) + mset (filter ?N (snd ?r)))"
      by (simp add: packedItems_def)
    also have "\<dots> = mset (packedItems pbs) + (mset (items ?tb) + mset (filter ?N rest))"
      by (simp only: acc)
    also have "\<dots> = mset (packedItems pbs) + mset (filter ?N (cur # rest))"
      using nu by simp
    finally have 3: "mset (packedItems (pbs @ [fst ?r])) + mset (filter ?N (snd ?r)) = M"
      using inv by simp
    have 4: "w @ map unpackableWarning (filter ?U (snd ?r)) = W"
      using keep inv nu by simp
    from 1 2 3 4 show "?Inv (pbs @ [fst ?r]) (snd ?r) w" by blast
  next
    fix pbs cur rest w
    assume inv: "?Inv pbs (cur # rest) w" and none: "find (newBoxFits cur) sb = None"
    from none have "?U cur" by (simp add: unpackable_find)
    with inv show "?Inv pbs rest (w @ [unpackableWarning cur])" by simp
  qed
  then show ?thesis by (simp add: M_def W_def)
qed

lemma allItemsFit_packable:
  assumes "allItemsFit its b fv tw \<noteq> None" and "0 \<le> tw" and "\<forall>x\<in>set its. 0 \<le> weight x"
  shows "\<forall>x\<in>set its. holdsAlone x b"
  using assms
proof (induction its arbitrary: fv tw)
  case Nil
  then show ?case by simp
next
  case (Cons it its)
  from Cons.prems(1) have fit: "doesItemFit it b fv tw"
    and rest: "allItemsFit its b (fv + getItemVolume it) (tw + weight it) \<noteq> None"
    by (simp_all split: if_splits)
  from fit Cons.prems(2) have "holdsAlone it b"
    by (simp add: doesItemFit_def holdsAlone_def axesFit_def)
  moreover from Cons.prems have "0 \<le> tw + weight it" "\<forall>x\<in>set its. 0 \<le> weight x" by simp_all
  from Cons.IH [OF rest this] have "\<forall>x\<in>set its. holdsAlone x b" .
  ultimately show ?case by simp
qed

lemma packOptimalLog_accounts:
  assumes "\<forall>it\<in>set its. validItem it"
  shows "mset (packedItems (fst (packOptimalLog its boxTypes))) =
           mset (filter (\<lambda>it. \<not> unpackable boxTypes it) its) \<and>
         snd (packOptimalLog its boxTypes) =
           map unpackableWarning (filter (unpackable boxTypes) (sortItemsDesc its))"
proof (cases "its = []")
  case True
  then show ?thesis by (simp add: packOptimalLog_def packedItems_def sortItemsDesc_def)
next
  case False
  let ?s = "sortItemsDesc its" and ?sb = "sortBoxesAsc boxTypes"
  have U: "unpackable ?sb = unpackable boxTypes"
    by (intro ext unpackable_set) simp
  have w: "\<forall>x\<in>set ?s. 0 \<le> weight x" using assms by (auto simp: validItem_def intro: less_imp_le)
  have perm: "mset (filter P ?s) = mset (filter P its)" for P
    by (simp only: mset_filter mset_sortItemsDesc)
  show ?thesis
  proof (cases "singleBox ?sb ?s")
    case (Some pb)
    from singleBox_Some [OF Some] obtain b fv tw where b: "b \<in> set boxTypes"
      and fit: "allItemsFit ?s b 0 0 = Some (fv, tw)" and pb: "pb = openBox b ?s fv tw"
      by auto
    from fit have "allItemsFit ?s b 0 0 \<noteq> None" by simp
    from allItemsFit_packable [OF this _ w] have "\<forall>x\<in>set ?s. holdsAlone x b" by simp
    with b have none: "\<forall>x\<in>set ?s. \<not> unpackable boxTypes x"
      by (auto simp: unpackable_def list_all_iff)
    then have "filter (unpackable boxTypes) ?s = []" "filter (\<lambda>x. \<not> unpackable boxTypes x) ?s = ?s"
      by (simp_all add: filter_empty_conv filter_id_conv)
    with Some False pb perm [of "\<lambda>x. \<not> unpackable boxTypes x"] show ?thesis
      by (simp add: packOptimalLog_def packedItems_def)
  next
    case None
    from packLoop_accounts [of "[]" ?sb ?s "[]"] w
    have "mset (packedItems (fst (packLoop ?sb [] ?s []))) = mset (filter (\<lambda>x. \<not> unpackable ?sb x) ?s)"
      and "snd (packLoop ?sb [] ?s []) = map unpackableWarning (filter (unpackable ?sb) ?s)"
      by (simp_all add: packedItems_def)
    with None False U perm [of "\<lambda>x. \<not> unpackable boxTypes x"] show ?thesis
      by (simp add: packOptimalLog_def)
  qed
qed



subsection \<open>Claim C6: suggestions\<close>

lemma suggestLoop_concat:
  "suggestLoop cur bts orig om saved acc = acc @ concat (map (\<lambda>e. suggestFor cur bts orig om (snd e)) saved)"
  by (induction saved arbitrary: acc) auto

lemma suggestFor_item: "s \<in> set (suggestFor cur bts orig om it) \<Longrightarrow> sugItem s = it"
  by (auto simp: suggestFor_def Let_def split: if_splits)

lemma getBulk_set:
  "set (getBulkOrderSuggestions cur saved bts) =
     (\<Union>e\<in>set saved. set (suggestFor cur bts (packOptimal cur bts)
        (calculateMetrics (packOptimal cur bts) cur) (snd e)))"
  by (cases "saved = []") (auto simp: getBulkOrderSuggestions_def Let_def suggestLoop_concat)

lemma suggestFor_cases:
  "suggestFor cur bts (packOptimal cur bts) (calculateMetrics (packOptimal cur bts) cur) it =
     (if quantityAdded (unitsFitting cur bts it) = 0 then [TooBig it tooBigMessage]
      else if worthSuggesting cur bts it then [foldable cur bts it] else [])"
  by (simp add: suggestFor_def unitsFitting_def worthSuggesting_def foldable_def Let_def)



subsection \<open>Claim C9: what the engine writes to\<close>

lemma covers_refl [simp]: "covers st st"
  by (simp add: covers_def)

lemma extends_covers: "covers base st \<Longrightarrow> extends base st st' \<Longrightarrow> covers base st'"
  by (auto simp: covers_def extends_def)

lemma extends_refl [simp]: "extends base st st"
  by (simp add: extends_def)

lemma extends_trans: "extends base st1 st2 \<Longrightarrow> extends base st2 st3 \<Longrightarrow> extends base st1 st3"
  by (auto simp: extends_def)

lemma extends_unchanged: "extends st st st' \<Longrightarrow> unchanged st st'"
  by (simp add: extends_def unchanged_def)

lemma newBoxArray_extends: "covers base st \<Longrightarrow> extends base st (fst (newBoxArray st refs))"
  by (simp add: extends_def covers_def newBoxArray_def)

lemma pushBox_extends:
  "length (boxArrays base) \<le> arr \<Longrightarrow> extends base st (pushBox st arr ref)"
  by (simp add: extends_def pushBox_def)

lemma placeItem_extends:
  "freshBox base st ref \<Longrightarrow> extends base st (placeItem st ref it)"
  by (simp add: extends_def placeItem_def freshBox_def Let_def)

lemma placeItem_boxArrays [simp]: "boxArrays (placeItem st ref it) = boxArrays st"
  by (simp add: placeItem_def Let_def)

lemma placeItem_fresh:
  "freshBox base st r \<Longrightarrow> freshBox base (placeItem st ref it) r"
  by (cases "r = ref") (auto simp: placeItem_def freshBox_def Let_def)

lemma fillBoxAt_frame:
  assumes "freshBox base st ref"
  shows "extends base st (fst (fillBoxAt st ref its)) \<and>
         boxArrays (fst (fillBoxAt st ref its)) = boxArrays st \<and>
         (\<forall>r. freshBox base st r \<longrightarrow> freshBox base (fst (fillBoxAt st ref its)) r)"
  using assms
proof (induction its arbitrary: st)
  case Nil
  then show ?case by simp
next
  case (Cons it its)
  show ?case
  proof (cases "doesItemFit it (viewBox st ref) (filledVolume (viewBox st ref))
           (totalWeight (viewBox st ref))")
    case True
    let ?st1 = "placeItem st ref it"
    from placeItem_fresh [OF Cons.prems] have f: "freshBox base ?st1 ref" .
    from Cons.IH [OF f] placeItem_extends [OF Cons.prems, of it] True show ?thesis
      by (auto intro: extends_trans placeItem_fresh)
  next
    case False
    from Cons.IH [OF Cons.prems] False show ?thesis by (simp add: case_prod_beta)
  qed
qed

lemma packLoopAt_invariant:
  assumes init: "Inv st its"
    and place: "\<And>st cur rest i. Inv st (cur # rest) \<Longrightarrow>
        bestFitBoxIndex cur (viewBoxes st arr) = Some i \<Longrightarrow>
        Inv (fst (fillBoxAt (placeItem st (boxArrays st ! arr ! i) cur) (boxArrays st ! arr ! i) rest))
            (snd (fillBoxAt (placeItem st (boxArrays st ! arr ! i) cur) (boxArrays st ! arr ! i) rest))"
    and new: "\<And>st cur rest nb. Inv st (cur # rest) \<Longrightarrow>
        bestFitBoxIndex cur (viewBoxes st arr) = None \<Longrightarrow> find (newBoxFits cur) sb = Some nb \<Longrightarrow>
        Inv (pushBox (fst (fillBoxAt (fst (openBoxAt st nb cur)) (snd (openBoxAt st nb cur)) rest)) arr
               (snd (openBoxAt st nb cur)))
            (snd (fillBoxAt (fst (openBoxAt st nb cur)) (snd (openBoxAt st nb cur)) rest))"
    and drop: "\<And>st cur rest. Inv st (cur # rest) \<Longrightarrow>
        bestFitBoxIndex cur (viewBoxes st arr) = None \<Longrightarrow> find (newBoxFits cur) sb = None \<Longrightarrow>
        Inv st rest"
  shows "Inv (packLoopAt sb st arr its) []"
  using init
proof (induction "length its" arbitrary: st its rule: less_induct)
  case less
  show ?case
  proof (cases its)
    case Nil
    with less.prems show ?thesis by simp
  next
    case (Cons cur rest)
    note inv = less.prems [unfolded Cons]
    show ?thesis
    proof (cases "bestFitBoxIndex cur (viewBoxes st arr)")
      case (Some i)
      let ?ref = "boxArrays st ! arr ! i"
      let ?r = "fillBoxAt (placeItem st ?ref cur) ?ref rest"
      have "length (snd ?r) < length its"
        using fillBoxAt_length [of "placeItem st ?ref cur" ?ref rest "fst ?r" "snd ?r"] Cons by simp
      from less.hyps [OF this place [OF inv Some]]
      show ?thesis using Cons Some by (simp add: case_prod_beta)
    next
      case None
      show ?thesis
      proof (cases "find (newBoxFits cur) sb")
        case (Some nb)
        let ?o = "openBoxAt st nb cur"
        let ?r = "fillBoxAt (fst ?o) (snd ?o) rest"
        have "length (snd ?r) < length its"
          using fillBoxAt_length [of "fst ?o" "snd ?o" rest "fst ?r" "snd ?r"] Cons by simp
        from less.hyps [OF this new [OF inv None Some]]
        show ?thesis using Cons None Some by (simp add: case_prod_beta)
      next
        case nf: None
        have "length rest < length its" using Cons by simp
        from less.hyps [OF this drop [OF inv None nf]]
        show ?thesis using Cons None nf by simp
      qed
    qed
  qed
qed

lemma openBoxAt_frame:
  assumes "covers base st"
  shows "extends base st (fst (openBoxAt st nb cur)) \<and>
         freshBox base (fst (openBoxAt st nb cur)) (snd (openBoxAt st nb cur)) \<and>
         boxArrays (fst (openBoxAt st nb cur)) = boxArrays st \<and>
         (\<forall>r. freshBox base st r \<longrightarrow> freshBox base (fst (openBoxAt st nb cur)) r)"
  using assms
  by (auto simp: openBoxAt_def newItemArray_def newBoxObj_def extends_def covers_def freshBox_def
      nth_append)

lemma packLoopAt_frame:
  assumes "ownsArray base st arr"
  shows "extends base st (packLoopAt sb st arr its) \<and> ownsArray base (packLoopAt sb st arr its) arr"
proof -
  let ?Inv = "\<lambda>st' (its :: item list). extends base st st' \<and> ownsArray base st' arr"
  have "?Inv (packLoopAt sb st arr its) []"
  proof (rule packLoopAt_invariant [where Inv = ?Inv])
    show "?Inv st its" using assms by simp
  next
    fix st1 cur rest i
    assume inv: "?Inv st1 (cur # rest)" and best: "bestFitBoxIndex cur (viewBoxes st1 arr) = Some i"
    let ?ref = "boxArrays st1 ! arr ! i"
    let ?st2 = "placeItem st1 ?ref cur"
    let ?r = "fillBoxAt ?st2 ?ref rest"
    from bestFitBoxIndex_fits [OF best] have "i < length (boxArrays st1 ! arr)"
      by (simp add: viewBoxes_def)
    with inv have fr: "freshBox base st1 ?ref" by (simp add: ownsArray_def)
    note p = placeItem_extends [OF fr, of cur]
    note f = fillBoxAt_frame [OF placeItem_fresh [OF fr], of ?ref cur rest]
    from p f have ext: "extends base st1 (fst ?r)" by (blast intro: extends_trans)
    have arrs: "boxArrays (fst ?r) = boxArrays st1" using f by simp
    have "\<forall>r\<in>set (boxArrays (fst ?r) ! arr). freshBox base (fst ?r) r"
      using inv f arrs by (auto simp: ownsArray_def intro: placeItem_fresh)
    with inv ext arrs have "ownsArray base (fst ?r) arr"
      by (auto simp: ownsArray_def intro: extends_covers)
    with inv ext show "?Inv (fst ?r) (snd ?r)" by (blast intro: extends_trans)
  next
    fix st1 cur rest nb
    assume inv: "?Inv st1 (cur # rest)"
    let ?o = "openBoxAt st1 nb cur"
    let ?r = "fillBoxAt (fst ?o) (snd ?o) rest"
    let ?st3 = "pushBox (fst ?r) arr (snd ?o)"
    from inv have cov: "covers base st1" and arr: "length (boxArrays base) \<le> arr"
      "arr < length (boxArrays st1)" by (simp_all add: ownsArray_def)
    note o = openBoxAt_frame [OF cov, of nb cur]
    from o have fr: "freshBox base (fst ?o) (snd ?o)" by simp
    note f = fillBoxAt_frame [OF fr, of rest]
    note p = pushBox_extends [OF arr(1), of "fst ?r" "snd ?o"]
    from o f p have ext: "extends base st1 ?st3" by (blast intro: extends_trans)
    have arrs: "boxArrays (fst ?r) = boxArrays st1" using o f by simp
    have objs: "boxObjs ?st3 = boxObjs (fst ?r)" "itemArrays ?st3 = itemArrays (fst ?r)"
      by (simp_all add: pushBox_def)
    have old: "freshBox base ?st3 r" if "freshBox base st1 r" for r
      using that o f objs by (simp add: freshBox_def)
    have new: "freshBox base ?st3 (snd ?o)" using fr f objs by (simp add: freshBox_def)
    have "boxArrays ?st3 ! arr = boxArrays st1 ! arr @ [snd ?o]"
      using arr arrs by (simp add: pushBox_def)
    with inv old new have "\<forall>r\<in>set (boxArrays ?st3 ! arr). freshBox base ?st3 r"
      by (auto simp: ownsArray_def)
    moreover have "arr < length (boxArrays ?st3)" using arr arrs by (simp add: pushBox_def)
    ultimately have "ownsArray base ?st3 arr"
      using cov ext arr by (auto simp: ownsArray_def intro: extends_covers)
    with inv ext show "?Inv ?st3 (snd ?r)" by (blast intro: extends_trans)
  next
    fix st1 cur rest
    assume "?Inv st1 (cur # rest)"
    then show "?Inv st1 rest" by simp
  qed
  then show ?thesis by simp
qed

lemma addUnitsAt_frame:
  assumes "ownsArray base st arr"
  shows "extends base st (fst (addUnitsAt st it n arr a))"
  using assms
proof (induction n arbitrary: st a)
  case 0
  then show ?case by simp
next
  case (Suc n)
  show ?case
  proof (cases "bestFitBoxIndex it (viewBoxes st arr)")
    case None
    then show ?thesis by simp
  next
    case (Some i)
    let ?ref = "boxArrays st ! arr ! i"
    let ?st1 = "placeItem st ?ref it"
    from bestFitBoxIndex_fits [OF Some] have "i < length (boxArrays st ! arr)"
      by (simp add: viewBoxes_def)
    with Suc.prems have fr: "freshBox base st ?ref" by (simp add: ownsArray_def)
    note p = placeItem_extends [OF fr, of it]
    have "ownsArray base ?st1 arr"
      using Suc.prems p by (auto simp: ownsArray_def intro: extends_covers placeItem_fresh)
    from Suc.IH [OF this] p Some show ?thesis by (auto intro: extends_trans)
  qed
qed

lemma freshBox_mono:
  assumes "freshBox st1 st' r" and "extends st st st1"
  shows "freshBox st st' r"
  using assms by (auto simp: freshBox_def extends_def)

lemma freshBox_kept:
  assumes "freshBox base st r" and "extends st st st'"
  shows "freshBox base st' r"
proof -
  from assms(2) have t: "take (length (boxObjs st)) (boxObjs st') = boxObjs st"
    and l: "length (boxObjs st) \<le> length (boxObjs st')"
    by (simp_all add: extends_def)
  from assms(1) have r: "r < length (boxObjs st)" by (simp add: freshBox_def)
  have "boxObjs st' ! r = take (length (boxObjs st)) (boxObjs st') ! r" using r by simp
  with t have "boxObjs st' ! r = boxObjs st ! r" by simp
  with assms(1) l r show ?thesis by (simp add: freshBox_def)
qed

lemma copyBoxesAt_frame:
  "extends st st (fst (copyBoxesAt st refs)) \<and>
   (\<forall>r\<in>set (snd (copyBoxesAt st refs)). freshBox st (fst (copyBoxesAt st refs)) r)"
proof (induction refs arbitrary: st)
  case Nil
  then show ?case by simp
next
  case (Cons ref refs)
  let ?ob = "boxObjs st ! ref"
  let ?st1 = "fst (newItemArray st (itemArrays st ! objItems ?ob))"
  let ?ia = "snd (newItemArray st (itemArrays st ! objItems ?ob))"
  let ?st2 = "fst (newBoxObj ?st1 (?ob\<lparr>objItems := ?ia\<rparr>))"
  let ?copy = "snd (newBoxObj ?st1 (?ob\<lparr>objItems := ?ia\<rparr>))"
  let ?r = "copyBoxesAt ?st2 refs"
  have unfold: "copyBoxesAt st (ref # refs) = (fst ?r, ?copy # snd ?r)"
    by (simp add: case_prod_beta)
  have e2: "extends st st ?st2"
    by (simp add: extends_def newItemArray_def newBoxObj_def)
  have fr: "freshBox st ?st2 ?copy"
    by (simp add: freshBox_def newBoxObj_def newItemArray_def)
  note ih = Cons.IH [of ?st2]
  from ih have e3: "extends ?st2 ?st2 (fst ?r)" by simp
  have e: "extends st st (fst ?r)"
    using e2 e3 by (auto simp: extends_def newItemArray_def newBoxObj_def
        dest: arg_cong [where f = "take (length (itemArrays st))"]
              arg_cong [where f = "take (length (boxObjs st))"])
  have "freshBox st (fst ?r) ?copy" using fr e3 by (rule freshBox_kept)
  moreover have "\<forall>r\<in>set (snd ?r). freshBox st (fst ?r) r"
    using ih e2 by (auto intro: freshBox_mono)
  ultimately show ?case using e unfolding unfold by simp
qed

text \<open>
  Claim C9. After a call of \<open>packOptimal\<close> or of \<open>tryAddItemsToExistingBoxes\<close>, every
  array and every box object that was in the store before the call is as it was: the
  caller's item array, the catalog, the array of existing boxes and each of its box
  objects with its items array, filled volume and total weight. Both functions write only
  to arrays and objects they have created themselves.
\<close>

theorem arguments_not_mutated:
  "unchanged st (fst (packOptimalAt st itemsAddr catAddr)) \<and>
   unchanged st (fst (tryAddItemsToExistingBoxesAt st it n existing))"
proof
  show "unchanged st (fst (packOptimalAt st itemsAddr catAddr))"
  proof (cases "itemArrays st ! itemsAddr = []")
    case True
    then show ?thesis
      by (simp add: packOptimalAt_def newBoxArray_def unchanged_def)
  next
    case False
    let ?st1 = "fst (newItemArray st (itemArrays st ! itemsAddr))"
    let ?sorted = "snd (newItemArray st (itemArrays st ! itemsAddr))"
    let ?n = "newCatalog (sortItemsInPlace ?st1 ?sorted) (catalogs ?st1 ! catAddr)"
    let ?st3 = "sortCatalogInPlace (fst ?n) (snd ?n)"
    have e3: "extends st st ?st3"
      by (simp add: extends_def newItemArray_def newCatalog_def sortItemsInPlace_def
          sortCatalogInPlace_def)
    show ?thesis
    proof (cases "singleBox (catalogs ?st3 ! snd ?n) (itemArrays ?st3 ! ?sorted)")
      case (Some pb)
      have "extends st st (fst (newBoxArray (fst (newBoxObj ?st3 \<lparr>objType = boxTypeOf pb,
          objItems = ?sorted, objFilledVolume = filledVolume pb, objTotalWeight = totalWeight pb\<rparr>))
          [snd (newBoxObj ?st3 \<lparr>objType = boxTypeOf pb,
          objItems = ?sorted, objFilledVolume = filledVolume pb, objTotalWeight = totalWeight pb\<rparr>)]))"
        by (simp add: extends_def newItemArray_def newCatalog_def sortItemsInPlace_def
            sortCatalogInPlace_def newBoxObj_def newBoxArray_def)
      with False Some show ?thesis
        by (simp add: packOptimalAt_def case_prod_beta Let_def extends_unchanged)
    next
      case None
      let ?st4 = "fst (newBoxArray ?st3 [])" and ?packed = "snd (newBoxArray ?st3 [])"
      have e4: "extends st st ?st4"
        by (simp add: extends_def newItemArray_def newCatalog_def sortItemsInPlace_def
            sortCatalogInPlace_def newBoxArray_def)
      have "ownsArray st ?st4 ?packed"
        by (simp add: ownsArray_def covers_def newItemArray_def newCatalog_def sortItemsInPlace_def
            sortCatalogInPlace_def newBoxArray_def)
      from packLoopAt_frame [OF this] e4
      have "extends st st (packLoopAt (catalogs ?st3 ! snd ?n) ?st4 ?packed (itemArrays ?st3 ! ?sorted))"
        by (blast intro: extends_trans)
      with False None show ?thesis
        by (simp add: packOptimalAt_def case_prod_beta Let_def extends_unchanged)
    qed
  qed
next
  let ?c = "copyBoxesAt st (boxArrays st ! existing)"
  let ?st2 = "fst (newBoxArray (fst ?c) (snd ?c))" and ?sim = "snd (newBoxArray (fst ?c) (snd ?c))"
  note c = copyBoxesAt_frame [of st "boxArrays st ! existing"]
  from c have e1: "extends st st (fst ?c)" by simp
  then have cov: "covers st (fst ?c)" using extends_covers [OF covers_refl] by blast
  from cov have e2: "extends st (fst ?c) ?st2" by (rule newBoxArray_extends)
  have "\<forall>r\<in>set (snd ?c). freshBox st ?st2 r"
    using c by (simp add: freshBox_def newBoxArray_def)
  moreover have "covers st ?st2" using cov e2 by (rule extends_covers)
  moreover have "length (boxArrays st) \<le> ?sim \<and> ?sim < length (boxArrays ?st2)"
    using cov by (simp add: newBoxArray_def covers_def)
  moreover have "boxArrays ?st2 ! ?sim = snd ?c" by (simp add: newBoxArray_def)
  ultimately have "ownsArray st ?st2 ?sim" by (simp add: ownsArray_def)
  from addUnitsAt_frame [OF this, of it n 0] e1 e2
  have "extends st st (fst (addUnitsAt ?st2 it n ?sim 0))"
    by (blast intro: extends_trans)
  then show "unchanged st (fst (tryAddItemsToExistingBoxesAt st it n existing))"
    by (simp add: tryAddItemsToExistingBoxesAt_def case_prod_beta extends_unchanged)
qed

subsection \<open>The store-level functions compute what the pure ones do\<close>

lemma viewBox_placeItem_same:
  "inStore st r \<Longrightarrow> viewBox (placeItem st r it) r = addItem it (viewBox st r)"
  by (simp add: viewBox_def placeItem_def inStore_def Let_def addItem_def openBox_def)

lemma viewBox_placeItem_other:
  "r' \<noteq> r \<Longrightarrow> objItems (boxObjs st ! r') \<noteq> objItems (boxObjs st ! r) \<Longrightarrow>
     viewBox (placeItem st r it) r' = viewBox st r'"
  by (simp add: viewBox_def placeItem_def Let_def)

lemma placeItem_shape:
  "length (boxObjs (placeItem st r it)) = length (boxObjs st) \<and>
   length (itemArrays (placeItem st r it)) = length (itemArrays st) \<and>
   objItems (boxObjs (placeItem st r it) ! r') = objItems (boxObjs st ! r')"
  by (cases "r' = r"; cases "r < length (boxObjs st)")
     (simp_all add: placeItem_def Let_def list_update_beyond not_less)

lemma placeItem_inStore [simp]: "inStore (placeItem st r it) r' = inStore st r'"
  by (simp add: inStore_def placeItem_shape)

lemma placeItem_separated [simp]: "separated (placeItem st r it) refs = separated st refs"
  by (simp add: separated_def placeItem_shape list_all_iff)

lemma fillBoxAt_refines:
  assumes "inStore st r"
  shows "viewBox (fst (fillBoxAt st r its)) r = fst (fillBox (viewBox st r) its) \<and>
         snd (fillBoxAt st r its) = snd (fillBox (viewBox st r) its) \<and>
         boxArrays (fst (fillBoxAt st r its)) = boxArrays st \<and>
         (\<forall>refs. separated (fst (fillBoxAt st r its)) refs = separated st refs) \<and>
         (\<forall>r'. inStore (fst (fillBoxAt st r its)) r' = inStore st r') \<and>
         (\<forall>r'. objItems (boxObjs (fst (fillBoxAt st r its)) ! r') = objItems (boxObjs st ! r')) \<and>
         (\<forall>r'. r' \<noteq> r \<and> objItems (boxObjs st ! r') \<noteq> objItems (boxObjs st ! r) \<longrightarrow>
            viewBox (fst (fillBoxAt st r its)) r' = viewBox st r')"
  using assms
proof (induction its arbitrary: st)
  case Nil
  then show ?case by simp
next
  case (Cons it its)
  let ?fit = "doesItemFit it (viewBox st r) (filledVolume (viewBox st r)) (totalWeight (viewBox st r))"
  show ?case
  proof (cases ?fit)
    case True
    let ?st1 = "placeItem st r it"
    from Cons.prems have in1: "inStore ?st1 r" by simp
    note ih = Cons.IH [OF in1]
    have v: "viewBox ?st1 r = addItem it (viewBox st r)"
      using Cons.prems by (rule viewBox_placeItem_same)
    have step: "fillBoxAt st r (it # its) = fillBoxAt ?st1 r its"
      "fillBox (viewBox st r) (it # its) = fillBox (addItem it (viewBox st r)) its"
      using True by simp_all
    show ?thesis
      unfolding step using ih v
      by (auto simp: placeItem_shape viewBox_placeItem_other)
  next
    case False
    note ih = Cons.IH [OF Cons.prems]
    have step: "fillBoxAt st r (it # its) = (fst (fillBoxAt st r its), it # snd (fillBoxAt st r its))"
      "fillBox (viewBox st r) (it # its) =
         (fst (fillBox (viewBox st r) its), it # snd (fillBox (viewBox st r) its))"
      using False by (simp_all add: case_prod_beta)
    show ?thesis unfolding step using ih by simp
  qed
qed

lemma separated_nth_distinct:
  assumes "separated st refs" and "i < length refs" and "j < length refs" and "j \<noteq> i"
  shows "refs ! j \<noteq> refs ! i \<and> objItems (boxObjs st ! (refs ! j)) \<noteq> objItems (boxObjs st ! (refs ! i))"
proof -
  from assms(1) have d: "distinct (map (\<lambda>r. objItems (boxObjs st ! r)) refs)"
    by (simp add: separated_def)
  from assms(2,3,4) d have "map (\<lambda>r. objItems (boxObjs st ! r)) refs ! j \<noteq>
      map (\<lambda>r. objItems (boxObjs st ! r)) refs ! i"
    unfolding distinct_conv_nth by simp
  with assms(2,3) show ?thesis by auto
qed

lemma views_after_update:
  assumes "separated st refs" and "i < length refs"
    and "\<forall>r'. r' \<noteq> refs ! i \<and> objItems (boxObjs st ! r') \<noteq> objItems (boxObjs st ! (refs ! i)) \<longrightarrow>
            viewBox st' r' = viewBox st r'"
  shows "map (viewBox st') refs = (map (viewBox st) refs)[i := viewBox st' (refs ! i)]"
proof (rule nth_equalityI)
  show "length (map (viewBox st') refs) = length ((map (viewBox st) refs)[i := viewBox st' (refs ! i)])"
    by simp
next
  fix j assume "j < length (map (viewBox st') refs)"
  then have j: "j < length refs" by simp
  show "map (viewBox st') refs ! j = (map (viewBox st) refs)[i := viewBox st' (refs ! i)] ! j"
  proof (cases "j = i")
    case True
    with j show ?thesis by simp
  next
    case False
    from separated_nth_distinct [OF assms(1,2) j False] assms(3)
    have "viewBox st' (refs ! j) = viewBox st (refs ! j)" by blast
    with j False assms(2) show ?thesis by simp
  qed
qed

lemma pushBox_view [simp]:
  "viewBox (pushBox st arr r) = viewBox st"
  "separated (pushBox st arr r) = separated st"
  "inStore (pushBox st arr r) = inStore st"
  by (simp_all add: fun_eq_iff viewBox_def separated_def inStore_def pushBox_def Let_def list_all_iff)

lemma pushBox_array:
  "arr < length (boxArrays st) \<Longrightarrow>
     length (boxArrays (pushBox st arr r)) = length (boxArrays st) \<and>
     boxArrays (pushBox st arr r) ! arr = boxArrays st ! arr @ [r]"
  by (simp add: pushBox_def)

lemma openBoxAt_refines:
  "viewBox (fst (openBoxAt st nb cur)) (snd (openBoxAt st nb cur)) =
     openBox nb [cur] (getItemVolume cur) (weight cur) \<and>
   inStore (fst (openBoxAt st nb cur)) (snd (openBoxAt st nb cur)) \<and>
   boxArrays (fst (openBoxAt st nb cur)) = boxArrays st \<and>
   (\<forall>r. inStore st r \<longrightarrow>
      inStore (fst (openBoxAt st nb cur)) r \<and>
      viewBox (fst (openBoxAt st nb cur)) r = viewBox st r \<and>
      r \<noteq> snd (openBoxAt st nb cur) \<and>
      objItems (boxObjs (fst (openBoxAt st nb cur)) ! r) = objItems (boxObjs st ! r) \<and>
      objItems (boxObjs (fst (openBoxAt st nb cur)) ! r) \<noteq>
        objItems (boxObjs (fst (openBoxAt st nb cur)) ! snd (openBoxAt st nb cur)))"
  by (auto simp: openBoxAt_def newItemArray_def newBoxObj_def viewBox_def inStore_def Let_def
      nth_append)

lemma openBoxAt_separated:
  assumes "separated st refs"
  shows "separated (fst (openBoxAt st nb cur)) (refs @ [snd (openBoxAt st nb cur)])"
proof -
  let ?st1 = "fst (openBoxAt st nb cur)" and ?new = "snd (openBoxAt st nb cur)"
  note o = openBoxAt_refines [of st nb cur]
  from assms have ins: "\<forall>r\<in>set refs. inStore st r" by (simp add: separated_def list_all_iff)
  have same: "map (\<lambda>r. objItems (boxObjs ?st1 ! r)) refs = map (\<lambda>r. objItems (boxObjs st ! r)) refs"
    using ins o by (intro map_cong) auto
  have "objItems (boxObjs ?st1 ! ?new) \<notin> set (map (\<lambda>r. objItems (boxObjs ?st1 ! r)) refs)"
    using ins o by force
  moreover have "distinct (map (\<lambda>r. objItems (boxObjs ?st1 ! r)) refs)"
    unfolding same using assms by (simp add: separated_def)
  moreover have "list_all (inStore ?st1) (refs @ [?new])"
    using ins o by (simp add: list_all_iff)
  ultimately show ?thesis by (simp add: separated_def)
qed

lemma packLoopAt_refines:
  assumes "arr < length (boxArrays st)" and "separated st (boxArrays st ! arr)"
  shows "viewBoxes (packLoopAt sb st arr its) arr = fst (packLoop sb (viewBoxes st arr) its w)"
  using assms
proof (induction "length its" arbitrary: st its w rule: less_induct)
  case less
  let ?refs = "boxArrays st ! arr"
  let ?pbs = "viewBoxes st arr"
  note sep = less.prems(2)
  from sep have ins: "\<forall>r\<in>set ?refs. inStore st r" by (simp add: separated_def list_all_iff)
  show ?case
  proof (cases its)
    case Nil
    then show ?thesis by simp
  next
    case (Cons cur rest)
    show ?thesis
    proof (cases "bestFitBoxIndex cur ?pbs")
      case (Some i)
      from bestFitBoxIndex_fits [OF Some] have i: "i < length ?refs" by (simp add: viewBoxes_def)
      let ?ref = "?refs ! i"
      let ?st1 = "placeItem st ?ref cur"
      let ?r = "fillBoxAt ?st1 ?ref rest"
      from i ins have inr: "inStore st ?ref" by simp
      then have in1: "inStore ?st1 ?ref" by simp
      note f = fillBoxAt_refines [OF in1, of rest]
      have v1: "viewBox ?st1 ?ref = addItem cur (?pbs ! i)"
        using viewBox_placeItem_same [OF inr] i by (simp add: viewBoxes_def)
      have box: "viewBox (fst ?r) ?ref = fst (fillBox (addItem cur (?pbs ! i)) rest)"
        and pend: "snd ?r = snd (fillBox (addItem cur (?pbs ! i)) rest)"
        using f v1 by simp_all
      have arrs: "boxArrays (fst ?r) = boxArrays st" using f by simp
      have sep': "separated (fst ?r) ?refs" using f sep by simp
      have others: "\<forall>r'. r' \<noteq> ?ref \<and> objItems (boxObjs st ! r') \<noteq> objItems (boxObjs st ! ?ref) \<longrightarrow>
          viewBox (fst ?r) r' = viewBox st r'"
        using f by (simp add: placeItem_shape viewBox_placeItem_other)
      have views: "viewBoxes (fst ?r) arr = ?pbs[i := fst (fillBox (addItem cur (?pbs ! i)) rest)]"
        using views_after_update [OF sep i others] arrs box by (simp add: viewBoxes_def)
      have "length (snd ?r) < length its"
        using fillBoxAt_length [of ?st1 ?ref rest "fst ?r" "snd ?r"] Cons by simp
      from less.hyps [OF this, of "fst ?r" w] less.prems(1) arrs sep'
      have "viewBoxes (packLoopAt sb (fst ?r) arr (snd ?r)) arr =
          fst (packLoop sb (viewBoxes (fst ?r) arr) (snd ?r) w)"
        by simp
      with Cons Some views pend show ?thesis by (simp add: case_prod_beta)
    next
      case None
      show ?thesis
      proof (cases "find (newBoxFits cur) sb")
        case (Some nb)
        let ?o = "openBoxAt st nb cur"
        let ?st1 = "fst ?o" and ?new = "snd ?o"
        let ?r = "fillBoxAt ?st1 ?new rest"
        let ?st3 = "pushBox (fst ?r) arr ?new"
        let ?fresh = "openBox nb [cur] (getItemVolume cur) (weight cur)"
        note o = openBoxAt_refines [of st nb cur]
        from o have in1: "inStore ?st1 ?new" by simp
        note f = fillBoxAt_refines [OF in1, of rest]
        have box: "viewBox (fst ?r) ?new = fst (fillBox ?fresh rest)"
          and pend: "snd ?r = snd (fillBox ?fresh rest)"
          using f o by simp_all
        have arrs: "boxArrays (fst ?r) = boxArrays st" using f o by simp
        have old: "viewBox (fst ?r) r = viewBox st r" if "r \<in> set ?refs" for r
        proof -
          from that ins have "inStore st r" by simp
          with o have "viewBox ?st1 r = viewBox st r" "r \<noteq> ?new"
            "objItems (boxObjs ?st1 ! r) \<noteq> objItems (boxObjs ?st1 ! ?new)"
            by blast+
          with f show ?thesis by simp
        qed
        have arr3: "boxArrays ?st3 ! arr = ?refs @ [?new]" "arr < length (boxArrays ?st3)"
          using pushBox_array [of arr "fst ?r" ?new] less.prems(1) arrs by simp_all
        have views: "viewBoxes ?st3 arr = ?pbs @ [fst (fillBox ?fresh rest)]"
          using arr3 old box by (simp add: viewBoxes_def)
        have sep3: "separated ?st3 (boxArrays ?st3 ! arr)"
          using openBoxAt_separated [OF sep, of nb cur] f arr3 by simp
        have "length (snd ?r) < length its"
          using fillBoxAt_length [of ?st1 ?new rest "fst ?r" "snd ?r"] Cons by simp
        from less.hyps [OF this arr3(2) sep3, of w]
        have "viewBoxes (packLoopAt sb ?st3 arr (snd ?r)) arr =
            fst (packLoop sb (viewBoxes ?st3 arr) (snd ?r) w)" .
        with Cons None Some views pend show ?thesis by (simp add: case_prod_beta)
      next
        case nf: None
        have "length rest < length its" using Cons by simp
        from less.hyps [OF this less.prems, of "w @ [unpackableWarning cur]"] Cons None nf
        show ?thesis by simp
      qed
    qed
  qed
qed

lemma packOptimalAt_refines:
  assumes "itemsAddr < length (itemArrays st)" and "catAddr < length (catalogs st)"
  shows "viewBoxes (fst (packOptimalAt st itemsAddr catAddr)) (snd (packOptimalAt st itemsAddr catAddr)) =
           packOptimal (itemArrays st ! itemsAddr) (catalogs st ! catAddr)"
proof (cases "itemArrays st ! itemsAddr = []")
  case True
  then show ?thesis
    by (simp add: packOptimalAt_def packOptimal_def packOptimalLog_def newBoxArray_def viewBoxes_def)
next
  case False
  let ?its = "itemArrays st ! itemsAddr" and ?cat = "catalogs st ! catAddr"
  let ?st1 = "fst (newItemArray st ?its)"
  let ?sorted = "snd (newItemArray st ?its)"
  let ?n = "newCatalog (sortItemsInPlace ?st1 ?sorted) (catalogs ?st1 ! catAddr)"
  let ?st3 = "sortCatalogInPlace (fst ?n) (snd ?n)"
  have items3: "itemArrays ?st3 ! ?sorted = sortItemsDesc ?its"
    by (simp add: newItemArray_def newCatalog_def sortItemsInPlace_def sortCatalogInPlace_def)
  have cat3: "catalogs ?st3 ! snd ?n = sortBoxesAsc ?cat"
    by (simp add: newItemArray_def newCatalog_def sortItemsInPlace_def sortCatalogInPlace_def)
  have len3: "?sorted < length (itemArrays ?st3)"
    by (simp add: newItemArray_def newCatalog_def sortItemsInPlace_def sortCatalogInPlace_def)
  show ?thesis
  proof (cases "singleBox (sortBoxesAsc ?cat) (sortItemsDesc ?its)")
    case (Some pb)
    from singleBox_Some [OF Some] obtain b fv tw where pb: "pb = openBox b (sortItemsDesc ?its) fv tw"
      by blast
    let ?ob = "\<lparr>objType = boxTypeOf pb, objItems = ?sorted,
        objFilledVolume = filledVolume pb, objTotalWeight = totalWeight pb\<rparr>"
    have "viewBox (fst (newBoxArray (fst (newBoxObj ?st3 ?ob)) [snd (newBoxObj ?st3 ?ob)]))
        (snd (newBoxObj ?st3 ?ob)) = pb"
      using items3 len3 pb by (simp add: viewBox_def newBoxObj_def newBoxArray_def Let_def)
    then have "viewBoxes (fst (newBoxArray (fst (newBoxObj ?st3 ?ob)) [snd (newBoxObj ?st3 ?ob)]))
        (snd (newBoxArray (fst (newBoxObj ?st3 ?ob)) [snd (newBoxObj ?st3 ?ob)])) = [pb]"
      by (simp add: viewBoxes_def newBoxArray_def)
    with False Some items3 cat3 show ?thesis
      by (simp add: packOptimalAt_def packOptimal_def packOptimalLog_def case_prod_beta Let_def)
  next
    case None
    let ?st4 = "fst (newBoxArray ?st3 [])" and ?packed = "snd (newBoxArray ?st3 [])"
    have a: "?packed < length (boxArrays ?st4)" "boxArrays ?st4 ! ?packed = []"
      by (simp_all add: newBoxArray_def)
    then have s: "separated ?st4 (boxArrays ?st4 ! ?packed)" by (simp add: separated_def)
    have v: "viewBoxes ?st4 ?packed = []" using a by (simp add: viewBoxes_def)
    from packLoopAt_refines [OF a(1) s, of "sortBoxesAsc ?cat" "sortItemsDesc ?its" "[]"] v
    have "viewBoxes (packLoopAt (sortBoxesAsc ?cat) ?st4 ?packed (sortItemsDesc ?its)) ?packed =
        fst (packLoop (sortBoxesAsc ?cat) [] (sortItemsDesc ?its) [])"
      by simp
    with False None items3 cat3 show ?thesis
      by (simp add: packOptimalAt_def packOptimal_def packOptimalLog_def case_prod_beta Let_def)
  qed
qed

lemma viewBox_kept:
  assumes "inStore st r" and "extends st st st'"
  shows "viewBox st' r = viewBox st r \<and> inStore st' r \<and> boxObjs st' ! r = boxObjs st ! r"
proof -
  from assms(2) have t: "take (length (boxObjs st)) (boxObjs st') = boxObjs st"
    "take (length (itemArrays st)) (itemArrays st') = itemArrays st"
    and l: "length (boxObjs st) \<le> length (boxObjs st')" "length (itemArrays st) \<le> length (itemArrays st')"
    by (simp_all add: extends_def)
  from assms(1) have r: "r < length (boxObjs st)" "objItems (boxObjs st ! r) < length (itemArrays st)"
    by (simp_all add: inStore_def)
  have "boxObjs st' ! r = take (length (boxObjs st)) (boxObjs st') ! r" using r by simp
  with t have o: "boxObjs st' ! r = boxObjs st ! r" by simp
  have "itemArrays st' ! objItems (boxObjs st ! r) =
      take (length (itemArrays st)) (itemArrays st') ! objItems (boxObjs st ! r)"
    using r by simp
  with t have "itemArrays st' ! objItems (boxObjs st ! r) = itemArrays st ! objItems (boxObjs st ! r)"
    by simp
  with o r l show ?thesis by (simp add: viewBox_def inStore_def Let_def)
qed

lemma copyBoxesAt_refines:
  assumes "list_all (inStore st) refs"
  shows "map (viewBox (fst (copyBoxesAt st refs))) (snd (copyBoxesAt st refs)) = map (viewBox st) refs \<and>
         separated (fst (copyBoxesAt st refs)) (snd (copyBoxesAt st refs))"
  using assms
proof (induction refs arbitrary: st)
  case Nil
  then show ?case by (simp add: separated_def)
next
  case (Cons ref refs)
  let ?ob = "boxObjs st ! ref"
  let ?st1 = "fst (newItemArray st (itemArrays st ! objItems ?ob))"
  let ?ia = "snd (newItemArray st (itemArrays st ! objItems ?ob))"
  let ?st2 = "fst (newBoxObj ?st1 (?ob\<lparr>objItems := ?ia\<rparr>))"
  let ?copy = "snd (newBoxObj ?st1 (?ob\<lparr>objItems := ?ia\<rparr>))"
  let ?r = "copyBoxesAt ?st2 refs"
  have unfold: "copyBoxesAt st (ref # refs) = (fst ?r, ?copy # snd ?r)"
    by (simp add: case_prod_beta)
  have e2: "extends st st ?st2"
    by (simp add: extends_def newItemArray_def newBoxObj_def)
  from Cons.prems have inr: "inStore st ref" and ins: "\<forall>r\<in>set refs. inStore st r"
    by (simp_all add: list_all_iff)
  have kept: "viewBox ?st2 r = viewBox st r \<and> inStore ?st2 r" if "r \<in> set refs" for r
    using viewBox_kept [OF _ e2, of r] ins that by blast
  have ins2: "list_all (inStore ?st2) refs"
    using kept by (simp add: list_all_iff)
  note ih = Cons.IH [OF ins2]
  note fr = copyBoxesAt_frame [of ?st2 refs]
  have c2: "inStore ?st2 ?copy" "viewBox ?st2 ?copy = viewBox st ref"
    "objItems (boxObjs ?st2 ! ?copy) = length (itemArrays st)"
    using inr by (simp_all add: inStore_def viewBox_def newItemArray_def newBoxObj_def Let_def nth_append)
  from viewBox_kept [OF c2(1) conjunct1 [OF fr]]
  have c3: "viewBox (fst ?r) ?copy = viewBox ?st2 ?copy" "inStore (fst ?r) ?copy"
    "boxObjs (fst ?r) ! ?copy = boxObjs ?st2 ! ?copy"
    by simp_all
  have old: "map (viewBox ?st2) refs = map (viewBox st) refs"
    using kept by (intro map_cong) simp_all
  have "objItems (boxObjs (fst ?r) ! ?copy) \<notin> (\<lambda>r. objItems (boxObjs (fst ?r) ! r)) ` set (snd ?r)"
  proof
    assume "objItems (boxObjs (fst ?r) ! ?copy) \<in> (\<lambda>r. objItems (boxObjs (fst ?r) ! r)) ` set (snd ?r)"
    then obtain r where r: "r \<in> set (snd ?r)"
      and eq: "objItems (boxObjs (fst ?r) ! r) = objItems (boxObjs (fst ?r) ! ?copy)"
      by auto
    from fr r have "freshBox ?st2 (fst ?r) r" by simp
    then have "length (itemArrays ?st2) \<le> objItems (boxObjs (fst ?r) ! r)" by (simp add: freshBox_def)
    with eq c3(3) c2(3) show False by (simp add: newItemArray_def newBoxObj_def)
  qed
  with ih c3(2) have "separated (fst ?r) (?copy # snd ?r)" by (simp add: separated_def)
  with ih c3 c2 old show ?case unfolding unfold by simp
qed

lemma addUnitsAt_refines:
  assumes "arr < length (boxArrays st)" and "separated st (boxArrays st ! arr)"
  shows "snd (addUnitsAt st it n arr a) = fst (addUnits it n (viewBoxes st arr) a) \<and>
         viewBoxes (fst (addUnitsAt st it n arr a)) arr = snd (addUnits it n (viewBoxes st arr) a)"
  using assms
proof (induction n arbitrary: st a)
  case 0
  then show ?case by simp
next
  case (Suc n)
  let ?refs = "boxArrays st ! arr"
  let ?pbs = "viewBoxes st arr"
  show ?case
  proof (cases "bestFitBoxIndex it ?pbs")
    case None
    then show ?thesis by simp
  next
    case (Some i)
    from bestFitBoxIndex_fits [OF Some] have i: "i < length ?refs" by (simp add: viewBoxes_def)
    let ?ref = "?refs ! i"
    let ?st1 = "placeItem st ?ref it"
    from Suc.prems(2) i have inr: "inStore st ?ref" by (simp add: separated_def list_all_iff)
    have others: "\<forall>r'. r' \<noteq> ?ref \<and> objItems (boxObjs st ! r') \<noteq> objItems (boxObjs st ! ?ref) \<longrightarrow>
          viewBox ?st1 r' = viewBox st r'"
      by (simp add: viewBox_placeItem_other)
    have views: "viewBoxes ?st1 arr = ?pbs[i := addItem it (?pbs ! i)]"
      using views_after_update [OF Suc.prems(2) i others] viewBox_placeItem_same [OF inr] i
      by (simp add: viewBoxes_def)
    from Suc.IH [of ?st1 "Suc a"] Suc.prems views Some show ?thesis by simp
  qed
qed

lemma tryAddAt_refines:
  assumes "existing < length (boxArrays st)" and "list_all (inStore st) (boxArrays st ! existing)"
  shows "fst (snd (tryAddItemsToExistingBoxesAt st it n existing)) =
           quantityAdded (tryAddItemsToExistingBoxes it n (viewBoxes st existing)) \<and>
         viewBoxes (fst (tryAddItemsToExistingBoxesAt st it n existing))
             (snd (snd (tryAddItemsToExistingBoxesAt st it n existing))) =
           newPackedBoxes (tryAddItemsToExistingBoxes it n (viewBoxes st existing))"
proof -
  let ?c = "copyBoxesAt st (boxArrays st ! existing)"
  let ?st2 = "fst (newBoxArray (fst ?c) (snd ?c))" and ?sim = "snd (newBoxArray (fst ?c) (snd ?c))"
  note c = copyBoxesAt_refines [OF assms(2)]
  have a: "?sim < length (boxArrays ?st2)" "boxArrays ?st2 ! ?sim = snd ?c"
    by (simp_all add: newBoxArray_def)
  have same: "viewBox ?st2 = viewBox (fst ?c)" "separated ?st2 = separated (fst ?c)"
    by (simp_all add: fun_eq_iff viewBox_def separated_def inStore_def newBoxArray_def Let_def
        list_all_iff)
  have v: "viewBoxes ?st2 ?sim = viewBoxes st existing"
    using c a same by (simp add: viewBoxes_def)
  have s: "separated ?st2 (boxArrays ?st2 ! ?sim)" using c a same by simp
  from addUnitsAt_refines [OF a(1) s, of it n 0] v show ?thesis
    by (simp add: tryAddItemsToExistingBoxesAt_def tryAddItemsToExistingBoxes_def case_prod_beta)
qed

lemma placeItem_changes:
  assumes "ref < length (boxObjs st)" and "weight it \<noteq> 0"
  shows "\<not> unchanged st (placeItem st ref it)"
proof
  let ?ob = "boxObjs st ! ref"
  let ?ob' = "?ob\<lparr>objFilledVolume := objFilledVolume ?ob + getItemVolume it,
      objTotalWeight := objTotalWeight ?ob + weight it\<rparr>"
  assume "unchanged st (placeItem st ref it)"
  then have "(boxObjs st)[ref := ?ob'] = boxObjs st"
    by (simp add: unchanged_def placeItem_def Let_def)
  then have "(boxObjs st)[ref := ?ob'] ! ref = ?ob" by simp
  with assms(1) have "?ob' = ?ob" by simp
  then have "objTotalWeight ?ob' = objTotalWeight ?ob" by (rule arg_cong)
  with assms(2) show False by simp
qed

theorem arguments_not_mutated_witness:
  "unchanged exampleStore (fst (packOptimalAt exampleStore 0 0)) \<and>
   unchanged exampleStore (fst (tryAddItemsToExistingBoxesAt exampleStore mug 5 0)) \<and>
   fst (snd (tryAddItemsToExistingBoxesAt exampleStore mug 5 0)) = 2 \<and>
   viewBoxes (fst (tryAddItemsToExistingBoxesAt exampleStore mug 5 0))
     (snd (snd (tryAddItemsToExistingBoxesAt exampleStore mug 5 0))) =
     [openBox (AMAZON_BOX_SIZES ! 0) [book, mug, mug, mug] 5040 2] \<and>
   viewBoxes (fst (tryAddItemsToExistingBoxesAt exampleStore mug 5 0)) 0 =
     [openBox (AMAZON_BOX_SIZES ! 0) [book, mug] 2880 (6 / 5)]"
proof -
  have q: "fst (snd (tryAddItemsToExistingBoxesAt exampleStore mug 5 0)) = 2" by code_simp
  have n: "viewBoxes (fst (tryAddItemsToExistingBoxesAt exampleStore mug 5 0))
     (snd (snd (tryAddItemsToExistingBoxesAt exampleStore mug 5 0))) =
     [openBox (AMAZON_BOX_SIZES ! 0) [book, mug, mug, mug] 5040 2]"
    by code_simp
  have o: "viewBoxes (fst (tryAddItemsToExistingBoxesAt exampleStore mug 5 0)) 0 =
     [openBox (AMAZON_BOX_SIZES ! 0) [book, mug] 2880 (6 / 5)]"
    by code_simp
  from arguments_not_mutated [of exampleStore 0 0 mug 5 0] q n o show ?thesis
    by (intro conjI) (elim conjE, assumption)+
qed

end
